theory Spec2Isabelle
  imports Main
begin

section \<open>Python strings\<close>

text \<open>
  A Python \<^verbatim>\<open>str\<close> is a sequence of Unicode code points, and every length, index and
  character test of the sanitizer counts code points.  A character is therefore modelled
  by its code point, a natural number, and a string by the list of its code points.
  \<open>ustr\<close> turns an ASCII literal into such a list.
\<close>

type_synonym uchar = nat
type_synonym ustring = "nat list"

definition ustr :: "string \<Rightarrow> ustring" where
  "ustr s = map of_char s"

text \<open>
  \<^verbatim>\<open>str.isspace\<close>, which is also what \<^verbatim>\<open>str.strip()\<close> removes and what \<^verbatim>\<open>\s\<close> matches
  in a \<^verbatim>\<open>re\<close> pattern over \<^verbatim>\<open>str\<close>: U+0009..U+000D, U+001C..U+0020, U+0085, U+00A0,
  U+1680, U+2000..U+200A, U+2028, U+2029, U+202F, U+205F, U+3000.
\<close>

definition isspace :: "uchar \<Rightarrow> bool" where
  "isspace c \<longleftrightarrow>
     (9 \<le> c \<and> c \<le> 13) \<or> (28 \<le> c \<and> c \<le> 32) \<or> c = 133 \<or> c = 160 \<or> c = 5760 \<or>
     (8192 \<le> c \<and> c \<le> 8202) \<or> c = 8232 \<or> c = 8233 \<or> c = 8239 \<or> c = 8287 \<or> c = 12288"

text \<open>
  The decimal digits (general category Nd): what \<^verbatim>\<open>\d\<close> matches and what \<^verbatim>\<open>\D\<close> excludes.
  They come in runs of ten; the list holds the code point of each zero.
\<close>

definition decimal_zeros :: "nat list" where
  "decimal_zeros =
     [48, 1632, 1776, 1984, 2406, 2534, 2662, 2790, 2918, 3046, 3174, 3302, 3430, 3558,
      3664, 3792, 3872, 4160, 4240, 6112, 6160, 6470, 6608, 6784, 6800, 6992, 7088, 7232,
      7248, 42528, 43216, 43264, 43472, 43504, 43600, 44016, 65296, 66720, 68912, 69734,
      69872, 69942, 70096, 70384, 70736, 70864, 71248, 71360, 71472, 71904, 72016, 72784,
      73040, 73120, 92768, 92864, 93008, 120782, 120792, 120802, 120812, 120822, 123200,
      123632, 125264, 130032]"

definition isdecimal :: "uchar \<Rightarrow> bool" where
  "isdecimal c \<longleftrightarrow> list_ex (\<lambda>z. z \<le> c \<and> c < z + 10) decimal_zeros"

text \<open>
  \<^verbatim>\<open>str.isdigit\<close> is wider than \<^verbatim>\<open>\d\<close>: it also holds of the characters whose numeric type
  is Digit without being decimal, such as the superscripts U+00B2, U+00B3 and U+00B9.
\<close>

definition other_digits :: "(nat \<times> nat) list" where
  "other_digits =
     [(178, 179), (185, 185), (4969, 4977), (6618, 6618), (8304, 8304), (8308, 8313),
      (8320, 8329), (9312, 9320), (9332, 9340), (9352, 9360), (9450, 9450), (9461, 9469),
      (9471, 9471), (10102, 10110), (10112, 10120), (10122, 10130), (68160, 68163),
      (69216, 69224), (69714, 69722), (127232, 127242)]"

definition isdigit :: "uchar \<Rightarrow> bool" where
  "isdigit c \<longleftrightarrow> isdecimal c \<or> list_ex (\<lambda>(lo, hi). lo \<le> c \<and> c \<le> hi) other_digits"

text \<open>\<^verbatim>\<open>s.strip()\<close>: the string without its leading and trailing whitespace.\<close>

definition strip :: "ustring \<Rightarrow> ustring" where
  "strip s = rev (dropWhile isspace (rev (dropWhile isspace s)))"

text \<open>
  \<^verbatim>\<open>s.splitlines()\<close>: the lines of \<open>s\<close> without their terminators.  A line ends at
  LF, VT, FF, CR, CR LF (one boundary), FS, GS, RS, NEL, LS or PS; a terminator at the very
  end opens no further line, and the empty string has no line.
\<close>

definition is_linebreak :: "uchar \<Rightarrow> bool" where
  "is_linebreak c \<longleftrightarrow>
     (10 \<le> c \<and> c \<le> 13) \<or> (28 \<le> c \<and> c \<le> 30) \<or> c = 133 \<or> c = 8232 \<or> c = 8233"

fun splitlines :: "ustring \<Rightarrow> ustring list" where
  "splitlines [] = []"
| "splitlines (c # cs) =
     (if c = 13 \<and> take 1 cs = [10] then [] # splitlines (drop 1 cs)
      else if is_linebreak c then [] # splitlines cs
      else (case splitlines cs of [] \<Rightarrow> [[c]] | l # ls \<Rightarrow> (c # l) # ls))"

text \<open>\<^verbatim>\<open>sep.join(parts)\<close>.\<close>

fun join_with :: "ustring \<Rightarrow> ustring list \<Rightarrow> ustring" where
  "join_with sep [] = []"
| "join_with sep [p] = p"
| "join_with sep (p # q # ps) = p @ sep @ join_with sep (q # ps)"

text \<open>
  \<^verbatim>\<open>s.replace(old, new)\<close> for a pattern \<open>old\<close> of one character, which is the only way
  the sanitizer calls it: every occurrence of the character is replaced, left to right.
\<close>

definition replace_chr :: "uchar \<Rightarrow> ustring \<Rightarrow> ustring \<Rightarrow> ustring" where
  "replace_chr old new s = concat (map (\<lambda>c. if c = old then new else [c]) s)"

section \<open>Regular expressions\<close>

text \<open>
  A pattern of the \<^verbatim>\<open>re\<close> module is modelled by a backtracking matcher: given the text
  from the current position on, it returns what is left of the text after each way of
  matching there, in the order in which \<^verbatim>\<open>re\<close> tries them.  A greedy quantifier tries
  the longest repetition first, concatenation tries every continuation of the first way
  before it moves to the second.  \<^verbatim>\<open>match\<close> and \<^verbatim>\<open>search\<close> take the first way,
  \<^verbatim>\<open>fullmatch\<close> asks for a way that leaves nothing.
\<close>

type_synonym rx = "ustring \<Rightarrow> ustring list"

definition rx_chr :: "(uchar \<Rightarrow> bool) \<Rightarrow> rx" where
  "rx_chr P s = (case s of [] \<Rightarrow> [] | c # cs \<Rightarrow> if P c then [cs] else [])"

definition rx_lit :: "ustring \<Rightarrow> rx" where
  "rx_lit l s = (if take (length l) s = l then [drop (length l) s] else [])"

fun rx_star :: "(uchar \<Rightarrow> bool) \<Rightarrow> rx" where
  "rx_star P [] = [[]]"
| "rx_star P (c # cs) = (if P c then rx_star P cs @ [c # cs] else [c # cs])"

definition rx_plus :: "(uchar \<Rightarrow> bool) \<Rightarrow> rx" where
  "rx_plus P s = (case s of [] \<Rightarrow> [] | c # cs \<Rightarrow> if P c then rx_star P cs else [])"

definition rx_atleast :: "nat \<Rightarrow> (uchar \<Rightarrow> bool) \<Rightarrow> rx" where
  "rx_atleast n P s = filter (\<lambda>r. n \<le> length s - length r) (rx_star P s)"

definition rx_opt :: "rx \<Rightarrow> rx" where
  "rx_opt m s = m s @ [s]"

definition rx_seq :: "rx \<Rightarrow> rx \<Rightarrow> rx" where
  "rx_seq m1 m2 s = concat (map m2 (m1 s))"

definition fullmatch :: "rx \<Rightarrow> ustring \<Rightarrow> bool" where
  "fullmatch m s \<longleftrightarrow> [] \<in> set (m s)"

text \<open>
  \<^verbatim>\<open>_EMAIL_RE\<close>: \<^verbatim>\<open>(?P<local>[^@\s]+)@(?P<domain>[^\s@]+\.[^\s@]+)\<close>.
  The at sign is U+0040 and the full stop U+002E.
\<close>

definition email_cls :: "uchar \<Rightarrow> bool" where
  "email_cls c \<longleftrightarrow> c \<noteq> 64 \<and> \<not> isspace c"

definition EMAIL_local :: rx where
  "EMAIL_local = rx_plus email_cls"

definition EMAIL_domain :: rx where
  "EMAIL_domain = rx_seq (rx_plus email_cls) (rx_seq (rx_chr (\<lambda>c. c = 46)) (rx_plus email_cls))"

definition EMAIL_RE :: rx where
  "EMAIL_RE = rx_seq EMAIL_local (rx_seq (rx_chr (\<lambda>c. c = 64)) EMAIL_domain)"

text \<open>
  The groups \<^verbatim>\<open>local\<close> and \<^verbatim>\<open>domain\<close> of the first way in which \<^verbatim>\<open>_EMAIL_RE\<close> matches
  at the start of \<open>s\<close>: each group is the text that its part of the pattern consumed.
\<close>

definition EMAIL_groups_at :: "ustring \<Rightarrow> (ustring \<times> ustring) option" where
  "EMAIL_groups_at s =
     (case concat (map (\<lambda>r1. concat (map (\<lambda>r2. map (\<lambda>r3.
              (take (length s - length r1) s, take (length r2 - length r3) r2))
            (EMAIL_domain r2)) (rx_chr (\<lambda>c. c = 64) r1))) (EMAIL_local s))
      of [] \<Rightarrow> None | g # _ \<Rightarrow> Some g)"

text \<open>\<^verbatim>\<open>_EMAIL_RE.search\<close>: the match at the leftmost position that has one.\<close>

fun EMAIL_search :: "ustring \<Rightarrow> (ustring \<times> ustring) option" where
  "EMAIL_search [] = EMAIL_groups_at []"
| "EMAIL_search (c # cs) =
     (case EMAIL_groups_at (c # cs) of Some g \<Rightarrow> Some g | None \<Rightarrow> EMAIL_search cs)"

text \<open>
  \<^verbatim>\<open>_PHONE_RE\<close>: \<^verbatim>\<open>\+?\d[\d\-() ]{6,}\d\<close>.  Plus is U+002B, hyphen U+002D, the
  parentheses U+0028 and U+0029, space U+0020.
\<close>

definition phone_cls :: "uchar \<Rightarrow> bool" where
  "phone_cls c \<longleftrightarrow> isdecimal c \<or> c = 45 \<or> c = 40 \<or> c = 41 \<or> c = 32"

definition PHONE_RE :: rx where
  "PHONE_RE =
     rx_seq (rx_opt (rx_chr (\<lambda>c. c = 43)))
       (rx_seq (rx_chr isdecimal) (rx_seq (rx_atleast 6 phone_cls) (rx_chr isdecimal)))"

text \<open>\<^verbatim>\<open>_URL_RE\<close>: \<^verbatim>\<open>https?://[^\s]+\<close>.\<close>

definition URL_RE :: rx where
  "URL_RE =
     rx_seq (rx_lit (ustr ''http''))
       (rx_seq (rx_opt (rx_chr (\<lambda>c. c = of_char CHR ''s'')))
         (rx_seq (rx_lit (ustr ''://'')) (rx_plus (\<lambda>c. \<not> isspace c))))"

section \<open>Masking\<close>

text \<open>
  \<^verbatim>\<open>mask_part\<close>, the local function of \<^verbatim>\<open>mask_email\<close>; the asterisk is U+002A.
  \<^verbatim>\<open>s[0]\<close> and \<^verbatim>\<open>s[-1]\<close> are read only where \<open>s\<close> is not empty.
\<close>

definition mask_part :: "ustring \<Rightarrow> ustring" where
  "mask_part s =
     (if s = [] then []
      else if length s = 1 then s @ [42]
      else if length s = 2 then [hd s, 42]
      else [hd s] @ replicate (length s - 2) 42 @ [last s])"

text \<open>\<^verbatim>\<open>s.split(sep)\<close> for a separator of one character: it never returns an empty list.\<close>

fun split_chr :: "uchar \<Rightarrow> ustring \<Rightarrow> ustring list" where
  "split_chr sep [] = [[]]"
| "split_chr sep (c # cs) =
     (if c = sep then [] # split_chr sep cs
      else (case split_chr sep cs of [] \<Rightarrow> [[c]] | l # ls \<Rightarrow> (c # l) # ls))"

definition mask_email :: "ustring \<Rightarrow> ustring" where
  "mask_email v =
     (case EMAIL_search v of
        None \<Rightarrow> v
      | Some (local, domain) \<Rightarrow>
          mask_part local @ [64] @ join_with [46] (map mask_part (split_chr 46 domain)))"

text \<open>
  \<^verbatim>\<open>mask_phone\<close>.  \<^verbatim>\<open>re.sub(r"\D", "", value)\<close> keeps the decimal digits.  The loop then
  walks \<open>value\<close> and takes the next masked digit from the iterator for every character
  with \<^verbatim>\<open>ch.isdigit()\<close>; \<^verbatim>\<open>next(it)\<close> on the exhausted iterator raises \<^verbatim>\<open>StopIteration\<close>.
\<close>

datatype error = StopIteration

fun refill :: "ustring \<Rightarrow> ustring \<Rightarrow> error + ustring" where
  "refill it [] = Inr []"
| "refill it (ch # rest) =
     (if isdigit ch then
        (case it of
           [] \<Rightarrow> Inl StopIteration
         | m # it' \<Rightarrow> (case refill it' rest of Inl e \<Rightarrow> Inl e | Inr out \<Rightarrow> Inr (m # out)))
      else (case refill it rest of Inl e \<Rightarrow> Inl e | Inr out \<Rightarrow> Inr (ch # out)))"

definition mask_phone :: "ustring \<Rightarrow> error + ustring" where
  "mask_phone v =
     (let digits = filter isdecimal v in
      if length digits < 4 then Inr (replicate (length digits) 42)
      else refill (replicate (length digits - 2) 42 @ drop (length digits - 2) digits) v)"

section \<open>The JSON library\<close>

text \<open>
  \<^verbatim>\<open>json.loads\<close> and \<^verbatim>\<open>json.dumps\<close> belong to Python's standard library; the sanitizer
  only calls them.  They are modelled after the library's decoder and encoder with their
  default settings (strict strings, \<^verbatim>\<open>NaN\<close> and the infinities accepted, a \<^verbatim>\<open>dict\<close> for every
  object).  A value that Python holds as a \<^verbatim>\<open>float\<close> is represented by the text it was read
  from; integers are unbounded, and the interpreter's limits on nesting depth and on the
  number of digits of an integer are not modelled.
\<close>

datatype json =
    JNull
  | JBool bool
  | JInt int
  | JFloat ustring
  | JStr ustring
  | JArr "json list"
  | JObj "(ustring \<times> json) list"

text \<open>Whitespace between tokens: space, tab, newline, carriage return.\<close>

definition json_ws :: "uchar \<Rightarrow> bool" where
  "json_ws c \<longleftrightarrow> c = 32 \<or> c = 9 \<or> c = 10 \<or> c = 13"

definition skip_ws :: "ustring \<Rightarrow> ustring" where
  "skip_ws s = dropWhile json_ws s"

definition is09 :: "uchar \<Rightarrow> bool" where
  "is09 c \<longleftrightarrow> 48 \<le> c \<and> c \<le> 57"

definition hexval :: "uchar \<Rightarrow> nat option" where
  "hexval c =
     (if 48 \<le> c \<and> c \<le> 57 then Some (c - 48)
      else if 97 \<le> c \<and> c \<le> 102 then Some (c - 87)
      else if 65 \<le> c \<and> c \<le> 70 then Some (c - 55)
      else None)"

text \<open>The four hexadecimal digits of a \<^verbatim>\<open>\uXXXX\<close> escape.\<close>

definition hex4 :: "ustring \<Rightarrow> nat option" where
  "hex4 s =
     (case s of
        a # b # c # d # _ \<Rightarrow>
          (case (hexval a, hexval b, hexval c, hexval d) of
             (Some x, Some y, Some z, Some w) \<Rightarrow> Some (((x * 16 + y) * 16 + z) * 16 + w)
           | _ \<Rightarrow> None)
      | _ \<Rightarrow> None)"

text \<open>The one-letter escapes: quote, backslash, slash, b, f, n, r, t.\<close>

definition backslash :: "uchar \<Rightarrow> uchar option" where
  "backslash e =
     (if e = 34 then Some 34 else if e = 92 then Some 92 else if e = 47 then Some 47
      else if e = 98 then Some 8 else if e = 102 then Some 12 else if e = 110 then Some 10
      else if e = 114 then Some 13 else if e = 116 then Some 9 else None)"

text \<open>
  \<^verbatim>\<open>scanstring\<close>, from the character after the opening quote: the decoded string and the
  text after the closing quote.  A control character below U+0020 is refused, an escaped
  high surrogate followed by an escaped low surrogate is one character.
\<close>

fun scanstring :: "ustring \<Rightarrow> (ustring \<times> ustring) option" where
  "scanstring [] = None"
| "scanstring (c # cs) =
     (if c = 34 then Some ([], cs)
      else if c = 92 then
        (case cs of
           [] \<Rightarrow> None
         | e # es \<Rightarrow>
             if e = 117 then
               (case hex4 es of
                  None \<Rightarrow> None
                | Some uni \<Rightarrow>
                    if 55296 \<le> uni \<and> uni \<le> 56319 \<and> take 2 (drop 4 es) = [92, 117] then
                      (case hex4 (drop 6 es) of
                         None \<Rightarrow> None
                       | Some uni2 \<Rightarrow>
                           if 56320 \<le> uni2 \<and> uni2 \<le> 57343 then
                             map_option (\<lambda>(t, r). ((65536 + ((uni - 55296) * 1024 + (uni2 - 56320))) # t, r))
                               (scanstring (drop 10 es))
                           else map_option (\<lambda>(t, r). (uni # t, r)) (scanstring (drop 4 es)))
                    else map_option (\<lambda>(t, r). (uni # t, r)) (scanstring (drop 4 es)))
             else
               (case backslash e of
                  None \<Rightarrow> None
                | Some ch \<Rightarrow> map_option (\<lambda>(t, r). (ch # t, r)) (scanstring es)))
      else if c < 32 then None
      else map_option (\<lambda>(t, r). (c # t, r)) (scanstring cs))"

text \<open>
  Numbers: \<^verbatim>\<open>(-?(?:0|[1-9][0-9]*))(\.[0-9]+)?([eE][-+]?[0-9]+)?\<close>, an \<^verbatim>\<open>int\<close> when there is
  neither fraction nor exponent, a \<^verbatim>\<open>float\<close> otherwise.
\<close>

definition nat_of_digits :: "ustring \<Rightarrow> nat" where
  "nat_of_digits ds = foldl (\<lambda>a d. 10 * a + (d - 48)) 0 ds"

definition num_int :: "ustring \<Rightarrow> ustring" where
  "num_int s = (if take 1 s = [48] then [48] else takeWhile is09 s)"

definition num_frac :: "ustring \<Rightarrow> ustring" where
  "num_frac s =
     (if take 1 s = [46] \<and> takeWhile is09 (drop 1 s) \<noteq> []
      then 46 # takeWhile is09 (drop 1 s) else [])"

definition num_exp :: "ustring \<Rightarrow> ustring" where
  "num_exp s =
     (case s of
        [] \<Rightarrow> []
      | e # r \<Rightarrow>
          if e = 101 \<or> e = 69 then
            (let sg = (if take 1 r = [43] \<or> take 1 r = [45] then take 1 r else []);
                 ds = takeWhile is09 (drop (length sg) r)
             in if ds = [] then [] else e # sg @ ds)
          else [])"

definition scan_number :: "ustring \<Rightarrow> (json \<times> ustring) option" where
  "scan_number s =
     (let sign = (if take 1 s = [45] then [45] else []);
          ipart = num_int (drop (length sign) s);
          frac = num_frac (drop (length (sign @ ipart)) s);
          expo = num_exp (drop (length (sign @ ipart @ frac)) s);
          rest = drop (length (sign @ ipart @ frac @ expo)) s
      in if ipart = [] then None
         else if frac = [] \<and> expo = [] then
           Some (JInt (if sign = [] then int (nat_of_digits ipart)
                       else - int (nat_of_digits ipart)), rest)
         else Some (JFloat (sign @ ipart @ frac @ expo), rest))"

text \<open>The values that are neither strings nor containers, in the scanner's order.\<close>

definition scan_atom :: "ustring \<Rightarrow> (json \<times> ustring) option" where
  "scan_atom s =
     (if take 4 s = ustr ''null'' then Some (JNull, drop 4 s)
      else if take 4 s = ustr ''true'' then Some (JBool True, drop 4 s)
      else if take 5 s = ustr ''false'' then Some (JBool False, drop 5 s)
      else
        (case scan_number s of
           Some x \<Rightarrow> Some x
         | None \<Rightarrow>
             if take 3 s = ustr ''NaN'' then Some (JFloat (ustr ''NaN''), drop 3 s)
             else if take 8 s = ustr ''Infinity'' then Some (JFloat (ustr ''Infinity''), drop 8 s)
             else if take 9 s = ustr ''-Infinity'' then Some (JFloat (ustr ''-Infinity''), drop 9 s)
             else None))"

text \<open>
  \<^verbatim>\<open>dict(pairs)\<close>: a key that occurs again keeps its first position and takes the later
  value.
\<close>

fun dict_set :: "ustring \<Rightarrow> json \<Rightarrow> (ustring \<times> json) list \<Rightarrow> (ustring \<times> json) list" where
  "dict_set k v [] = [(k, v)]"
| "dict_set k v ((k', v') # d) = (if k = k' then (k, v) # d else (k', v') # dict_set k v d)"

definition dict_of :: "(ustring \<times> json) list \<Rightarrow> (ustring \<times> json) list" where
  "dict_of ps = foldl (\<lambda>d (k, v). dict_set k v d) [] ps"

lemma length_skip_ws: "length (skip_ws s) \<le> length s"
  by (simp add: skip_ws_def length_dropWhile_le)

lemma skip_ws_Cons_length: "skip_ws s = d # r \<Longrightarrow> length r < length s"
  using length_skip_ws [of s] by simp

text \<open>
  The scanner.  \<open>scan_once\<close> reads one value at the start of the text, \<open>scan_items\<close> the
  elements of an array up to its closing bracket (U+005D), \<open>scan_pairs\<close> the members of
  an object up to its closing brace (U+007D).  The comparisons of lengths before the
  second element or member only state that the value just read was not empty.
\<close>

function scan_once :: "ustring \<Rightarrow> (json \<times> ustring) option"
  and scan_items :: "ustring \<Rightarrow> (json list \<times> ustring) option"
  and scan_pairs :: "ustring \<Rightarrow> ((ustring \<times> json) list \<times> ustring) option"
where
  "scan_once s =
     (case s of
        [] \<Rightarrow> None
      | c # cs \<Rightarrow>
          if c = 34 then map_option (\<lambda>(t, r). (JStr t, r)) (scanstring cs)
          else if c = 123 then
            (case skip_ws cs of
               [] \<Rightarrow> None
             | d # r \<Rightarrow>
                 if d = 125 then Some (JObj [], r)
                 else map_option (\<lambda>(ps, r'). (JObj (dict_of ps), r')) (scan_pairs (d # r)))
          else if c = 91 then
            (case skip_ws cs of
               [] \<Rightarrow> None
             | d # r \<Rightarrow>
                 if d = 93 then Some (JArr [], r)
                 else map_option (\<lambda>(vs, r'). (JArr vs, r')) (scan_items (d # r)))
          else scan_atom s)"
| "scan_items s =
     (case scan_once s of
        None \<Rightarrow> None
      | Some (v, r) \<Rightarrow>
          (case skip_ws r of
             [] \<Rightarrow> None
           | d # r' \<Rightarrow>
               if d = 93 then Some ([v], r')
               else if d = 44 \<and> length r' < length s then
                 map_option (\<lambda>(vs, r''). (v # vs, r'')) (scan_items (skip_ws r'))
               else None))"
| "scan_pairs s =
     (case s of
        [] \<Rightarrow> None
      | c # cs \<Rightarrow>
          if c \<noteq> 34 then None
          else
            (case scanstring cs of
               None \<Rightarrow> None
             | Some (k, r) \<Rightarrow>
                 (case skip_ws r of
                    [] \<Rightarrow> None
                  | d # r1 \<Rightarrow>
                      if d \<noteq> 58 \<or> \<not> length r1 < length s then None
                      else
                        (case scan_once (skip_ws r1) of
                           None \<Rightarrow> None
                         | Some (v, r2) \<Rightarrow>
                             (case skip_ws r2 of
                                [] \<Rightarrow> None
                              | e # r3 \<Rightarrow>
                                  if e = 125 then Some ([(k, v)], r3)
                                  else if e = 44 \<and> length r3 < length s then
                                    map_option (\<lambda>(ps, r4). ((k, v) # ps, r4))
                                      (scan_pairs (skip_ws r3))
                                  else None)))))"
  by pat_completeness auto

termination
proof (relation "measure (\<lambda>x. case x of
    Inl s \<Rightarrow> 2 * length s
  | Inr (Inl s) \<Rightarrow> 2 * length s + 1
  | Inr (Inr s) \<Rightarrow> 2 * length s + 1)", goal_cases)
  case 1
  show ?case by simp
next
  case (2 s c cs d r)
  then show ?case using skip_ws_Cons_length [of cs d r] by simp
next
  case (3 s c cs d r)
  then show ?case using skip_ws_Cons_length [of cs d r] by simp
next
  case (4 s)
  show ?case by simp
next
  case (5 s x v r d r')
  then show ?case using length_skip_ws [of r'] by simp
next
  case (6 s c cs x k r d r1)
  then show ?case using length_skip_ws [of r1] by simp
next
  case (7 s c cs x k r d r1 y v r2 e r3)
  then show ?case using length_skip_ws [of r3] by simp
qed

text \<open>
  \<^verbatim>\<open>json.loads\<close>: whitespace, one value, whitespace, end of text.  \<open>None\<close> stands for
  the exception that the library raises on anything else.
\<close>

definition json_loads :: "ustring \<Rightarrow> json option" where
  "json_loads s =
     (case scan_once (skip_ws s) of
        None \<Rightarrow> None
      | Some (t, r) \<Rightarrow> if skip_ws r = [] then Some t else None)"

text \<open>
  \<^verbatim>\<open>json.dumps(obj, ensure_ascii=False)\<close>: the separators are a comma and a colon, each
  followed by a space; a string keeps every character except the double quote, the
  backslash and the control characters below U+0020.  The text of a \<^verbatim>\<open>float\<close> is given by
  \<open>fr\<close>, which stands for \<^verbatim>\<open>float.__repr__\<close> applied to the number that was read.
\<close>

fun dec :: "nat \<Rightarrow> ustring" where
  "dec n = (if n < 10 then [48 + n] else dec (n div 10) @ [48 + n mod 10])"

declare dec.simps [simp del]

definition str_int :: "int \<Rightarrow> ustring" where
  "str_int i = (if i < 0 then 45 # dec (nat (- i)) else dec (nat i))"

definition hexdigit :: "nat \<Rightarrow> uchar" where
  "hexdigit d = (if d < 10 then 48 + d else 87 + d)"

definition encode_chr :: "uchar \<Rightarrow> ustring" where
  "encode_chr c =
     (if c = 34 then [92, 34] else if c = 92 then [92, 92]
      else if c = 10 then [92, 110] else if c = 13 then [92, 114]
      else if c = 9 then [92, 116] else if c = 8 then [92, 98]
      else if c = 12 then [92, 102]
      else if c < 32 then [92, 117, 48, 48, hexdigit (c div 16), hexdigit (c mod 16)]
      else [c])"

definition encode_str :: "ustring \<Rightarrow> ustring" where
  "encode_str s = [34] @ concat (map encode_chr s) @ [34]"

fun json_dumps :: "(ustring \<Rightarrow> ustring) \<Rightarrow> json \<Rightarrow> ustring" where
  "json_dumps fr JNull = ustr ''null''"
| "json_dumps fr (JBool b) = (if b then ustr ''true'' else ustr ''false'')"
| "json_dumps fr (JInt i) = str_int i"
| "json_dumps fr (JFloat l) = fr l"
| "json_dumps fr (JStr s) = encode_str s"
| "json_dumps fr (JArr vs) = [91] @ join_with [44, 32] (map (json_dumps fr) vs) @ [93]"
| "json_dumps fr (JObj ps) =
     [123] @ join_with [44, 32] (map (\<lambda>(k, v). encode_str k @ [58, 32] @ json_dumps fr v) ps) @ [125]"

text \<open>A size of a value that bounds the length of every text it can be read from.\<close>

fun weight :: "json \<Rightarrow> nat" where
  "weight (JStr s) = length s + 2"
| "weight (JArr vs) = 2 + sum_list (map weight vs)"
| "weight (JObj ps) = 2 + sum_list (map (\<lambda>(k, v). weight v) ps)"
| "weight _ = 1"

text \<open>Every value weighs at most as much as the text it was read from is long.\<close>

lemma scanstring_length:
  "scanstring cs = Some (t, r) \<Longrightarrow> length t + length r < length cs"
proof (induction cs arbitrary: t r rule: scanstring.induct)
  case 1
  then show ?case by simp
next
  case (2 c cs)
  show ?case
  proof (cases "c = 34")
    case True
    with "2.prems" show ?thesis by simp
  next
    case c34: False
    show ?thesis
    proof (cases "c = 92")
      case False
      with c34 "2.prems" obtain t' where "c \<ge> 32" "scanstring cs = Some (t', r)" "t = c # t'"
        by (auto split: if_splits)
      with "2.IH"(5)[of t' r] c34 False show ?thesis by simp
    next
      case True
      then obtain e es where cs: "cs = e # es"
        using "2.prems" by (cases cs) auto
      show ?thesis
      proof (cases "e = 117")
        case False
        with True cs "2.prems" obtain ch t' where "backslash e = Some ch"
          "scanstring es = Some (t', r)" "t = ch # t'"
          by (auto split: option.splits)
        with "2.IH"(4)[OF c34 True cs False, of ch t' r] show ?thesis using cs by simp
      next
        case e: True
        with True cs "2.prems" obtain uni where uni: "hex4 es = Some uni"
          by (auto split: option.splits)
        let ?pair = "55296 \<le> uni \<and> uni \<le> 56319 \<and> take 2 (drop 4 es) = [92, 117]"
        show ?thesis
        proof (cases ?pair)
          case False
          with True cs e uni "2.prems" obtain t' where
            "scanstring (drop 4 es) = Some (t', r)" "t = uni # t'"
            by (auto split: option.splits if_splits)
          with "2.IH"(3)[OF c34 True cs e uni False, of t' r] show ?thesis using cs by simp
        next
          case p: True
          with True cs e uni "2.prems" obtain uni2 where uni2: "hex4 (drop 6 es) = Some uni2"
            by (auto split: option.splits if_splits)
          show ?thesis
          proof (cases "56320 \<le> uni2 \<and> uni2 \<le> 57343")
            case low: True
            with p True cs e uni uni2 "2.prems" obtain t' x where
              "scanstring (drop 10 es) = Some (t', r)" "t = x # t'"
              by (auto split: option.splits if_splits)
            with "2.IH"(1)[OF c34 True cs e uni p uni2 low, of t' r] show ?thesis using cs by simp
          next
            case low: False
            with p True cs e uni uni2 "2.prems" obtain t' where
              "scanstring (drop 4 es) = Some (t', r)" "t = uni # t'"
              by (auto split: option.splits if_splits)
            with "2.IH"(2)[OF c34 True cs e uni p uni2 low, of t' r] show ?thesis using cs by simp
          qed
        qed
      qed
    qed
  qed
qed


lemma num_int_Nil: "num_int [] = []"
  by (simp add: num_int_def)

lemma scan_number_length:
  assumes "scan_number s = Some (t, r)"
  shows "weight t = 1 \<and> length r < length s"
proof -
  define sign where "sign = (if take 1 s = [45] then [45] else ([]::ustring))"
  define ipart where "ipart = num_int (drop (length sign) s)"
  define n where "n = length (sign @ ipart @ num_frac (drop (length (sign @ ipart)) s) @
      num_exp (drop (length (sign @ ipart @ num_frac (drop (length (sign @ ipart)) s))) s))"
  have eq: "scan_number s = (if ipart = [] then None else
      if num_frac (drop (length (sign @ ipart)) s) = [] \<and>
         num_exp (drop (length (sign @ ipart @ num_frac (drop (length (sign @ ipart)) s))) s) = []
      then Some (JInt (if sign = [] then int (nat_of_digits ipart)
                       else - int (nat_of_digits ipart)), drop n s)
      else Some (JFloat (sign @ ipart @ num_frac (drop (length (sign @ ipart)) s) @
      num_exp (drop (length (sign @ ipart @ num_frac (drop (length (sign @ ipart)) s))) s)), drop n s))"
    unfolding scan_number_def Let_def sign_def [symmetric] ipart_def [symmetric] n_def
    by (rule refl)
  from assms eq have ne: "ipart \<noteq> []" by (simp split: if_splits)
  have sne: "s \<noteq> []"
  proof
    assume "s = []"
    then have "ipart = []" by (simp add: ipart_def num_int_Nil)
    with ne show False by simp
  qed
  have npos: "0 < n" using ne by (simp add: n_def)
  have r: "r = drop n s" and w: "weight t = 1"
    using assms ne unfolding eq by (auto split: if_splits)
  from sne npos have "length (drop n s) < length s" by simp
  with r w show ?thesis by simp
qed

lemma drop_after_take: "take n s = x # xs \<Longrightarrow> length s - n < length s"
  by (cases s; cases n) auto

lemma scan_atom_length:
  assumes "scan_atom s = Some (t, r)"
  shows "weight t = 1 \<and> length r < length s"
proof (cases "scan_number s")
  case (Some x)
  then show ?thesis using assms scan_number_length [of s t r]
    by (auto simp: scan_atom_def ustr_def split: if_splits dest: drop_after_take)
next
  case None
  then show ?thesis using assms
    by (auto simp: scan_atom_def ustr_def split: if_splits dest: drop_after_take)
qed

lemma dict_set_weight:
  "sum_list (map (\<lambda>(k, v). weight v) (dict_set k v d)) \<le> weight v + sum_list (map (\<lambda>(k, v). weight v) d)"
  by (induction d) auto

lemma dict_fold_weight:
  "sum_list (map (\<lambda>(k, v). weight v) (foldl (\<lambda>d (k, v). dict_set k v d) d ps))
     \<le> sum_list (map (\<lambda>(k, v). weight v) d) + sum_list (map (\<lambda>(k, v). weight v) ps)"
proof (induction ps arbitrary: d)
  case Nil
  then show ?case by simp
next
  case (Cons p ps)
  obtain k v where p: "p = (k, v)" by (cases p)
  show ?case using Cons.IH [of "dict_set k v d"] dict_set_weight [of k v d] by (simp add: p)
qed

lemma dict_of_weight:
  "sum_list (map (\<lambda>(k, v). weight v) (dict_of ps)) \<le> sum_list (map (\<lambda>(k, v). weight v) ps)"
  using dict_fold_weight [of "[]" ps] by (simp add: dict_of_def)

lemma scan_weight:
  "(\<forall>t r. scan_once s = Some (t, r) \<longrightarrow> weight t + length r \<le> length s)"
  "(\<forall>vs r. scan_items s1 = Some (vs, r) \<longrightarrow> sum_list (map weight vs) + length r < length s1)"
  "(\<forall>ps r. scan_pairs s2 = Some (ps, r) \<longrightarrow> sum_list (map (\<lambda>(k, v). weight v) ps) + length r < length s2)"
proof (induction s and s1 and s2 rule: scan_once_scan_items_scan_pairs.induct)
  case (1 s)
  show ?case
  proof (intro allI impI)
    fix t r assume a: "scan_once s = Some (t, r)"
    then obtain c cs where s: "s = c # cs" by (cases s) auto
    consider (str) "c = 34" | (obj) "c \<noteq> 34" "c = 123" | (arr) "c \<noteq> 34" "c \<noteq> 123" "c = 91"
      | (atom) "c \<noteq> 34" "c \<noteq> 123" "c \<noteq> 91" by blast
    then show "weight t + length r \<le> length s"
    proof cases
      case str
      with a s obtain u where "scanstring cs = Some (u, r)" "t = JStr u" by auto
      then show ?thesis using scanstring_length [of cs u r] s by simp
    next
      case obj
      from a s obj obtain d r0 where sk: "skip_ws cs = d # r0"
        by (cases "skip_ws cs") auto
      show ?thesis
      proof (cases "d = 125")
        case True
        with a s obj sk have "t = JObj []" "r = r0" by auto
        then show ?thesis using skip_ws_Cons_length [OF sk] s by simp
      next
        case False
        with a s obj sk obtain ps where ps: "scan_pairs (d # r0) = Some (ps, r)" "t = JObj (dict_of ps)"
          by auto
        from "1.IH"(1) [OF s obj(1) obj(2) sk False] ps(1)
        have "sum_list (map (\<lambda>(k, v). weight v) ps) + length r < length (d # r0)" by blast
        moreover have "length (d # r0) \<le> length cs" using length_skip_ws [of cs] sk by simp
        ultimately show ?thesis using dict_of_weight [of ps] ps(2) s by simp
      qed
    next
      case arr
      from a s arr obtain d r0 where sk: "skip_ws cs = d # r0"
        by (cases "skip_ws cs") auto
      show ?thesis
      proof (cases "d = 93")
        case True
        with a s arr sk have "t = JArr []" "r = r0" by auto
        then show ?thesis using skip_ws_Cons_length [OF sk] s by simp
      next
        case False
        with a s arr sk obtain vs where vs: "scan_items (d # r0) = Some (vs, r)" "t = JArr vs"
          by auto
        from "1.IH"(2) [OF s arr(1) arr(2) arr(3) sk False] vs(1)
        have "sum_list (map weight vs) + length r < length (d # r0)" by blast
        moreover have "length (d # r0) \<le> length cs" using length_skip_ws [of cs] sk by simp
        ultimately show ?thesis using vs(2) s by simp
      qed
    next
      case atom
      with a s have "scan_atom s = Some (t, r)" by simp
      then show ?thesis using scan_atom_length [of s t r] by simp
    qed
  qed
next
  case (2 s)
  show ?case
  proof (intro allI impI)
    fix vs r assume a: "scan_items s = Some (vs, r)"
    then obtain v r0 where v: "scan_once s = Some (v, r0)" by (cases "scan_once s") auto
    from "2.IH"(1) v have b: "weight v + length r0 \<le> length s" by blast
    from a v obtain d r' where sk: "skip_ws r0 = d # r'" by (cases "skip_ws r0") auto
    have l: "length r' < length r0" by (rule skip_ws_Cons_length [OF sk])
    have wpos: "0 < weight v" by (cases v) auto
    show "sum_list (map weight vs) + length r < length s"
    proof (cases "d = 93")
      case True
      with a v sk have "vs = [v]" "r = r'" by auto
      then show ?thesis using b l by simp
    next
      case False
      with a v sk have g: "d = 44 \<and> length r' < length s" by (auto split: if_splits)
      with a v sk False obtain vs' where vs': "scan_items (skip_ws r') = Some (vs', r)" "vs = v # vs'"
        by auto
      from "2.IH"(2) [OF v refl sk False g] vs'(1)
      have "sum_list (map weight vs') + length r < length (skip_ws r')" by blast
      then show ?thesis using vs'(2) b l length_skip_ws [of r'] by simp
    qed
  qed
next
  case (3 s)
  show ?case
  proof (intro allI impI)
    fix ps r assume a: "scan_pairs s = Some (ps, r)"
    then obtain c cs where s: "s = c # cs" by (cases s) auto
    from a s have c: "\<not> c \<noteq> 34" by (auto split: if_splits)
    from a s c obtain k r0 where k: "scanstring cs = Some (k, r0)"
      by (cases "scanstring cs") auto
    from a s c k obtain d r1 where sk: "skip_ws r0 = d # r1" by (cases "skip_ws r0") auto
    from a s c k sk have g: "\<not> (d \<noteq> 58 \<or> \<not> length r1 < length s)" by (auto split: if_splits)
    from a s c k sk g obtain v r2 where v: "scan_once (skip_ws r1) = Some (v, r2)"
      by (cases "scan_once (skip_ws r1)") auto
    from "3.IH"(1) [OF s c k refl sk g] v
    have b: "weight v + length r2 \<le> length (skip_ws r1)" by blast
    from a s c k sk g v obtain e r3 where sk2: "skip_ws r2 = e # r3" by (cases "skip_ws r2") auto
    have l3: "length r3 < length r2" by (rule skip_ws_Cons_length [OF sk2])
    have l1: "length (skip_ws r1) < length s" using g length_skip_ws [of r1] by simp
    show "sum_list (map (\<lambda>(k, v). weight v) ps) + length r < length s"
    proof (cases "e = 125")
      case True
      with a s c k sk g v sk2 have "ps = [(k, v)]" "r = r3" by auto
      then show ?thesis using b l3 l1 by simp
    next
      case False
      with a s c k sk g v sk2 have g2: "e = 44 \<and> length r3 < length s" by (auto split: if_splits)
      with a s c k sk g v sk2 False obtain ps' where
        ps': "scan_pairs (skip_ws r3) = Some (ps', r)" "ps = (k, v) # ps'"
        by auto
      from "3.IH"(2) [OF s c k refl sk g v refl sk2 False g2] ps'(1)
      have "sum_list (map (\<lambda>(k, v). weight v) ps') + length r < length (skip_ws r3)" by blast
      then show ?thesis using ps'(2) b l3 l1 length_skip_ws [of r3] by simp
    qed
  qed
qed


lemma json_loads_weight: "json_loads v = Some t \<Longrightarrow> weight t \<le> length v"
proof -
  assume "json_loads v = Some t"
  then obtain r where "scan_once (skip_ws v) = Some (t, r)"
    by (auto simp: json_loads_def split: option.splits if_splits)
  with scan_weight(1) [of "skip_ws v"] have "weight t + length r \<le> length (skip_ws v)" by blast
  then show ?thesis using length_skip_ws [of v] by simp
qed

section \<open>Field sanitizers\<close>

text \<open>\<^verbatim>\<open>escape_sql\<close>: \<^verbatim>\<open>value.replace("'", "''")\<close>.\<close>

definition escape_sql :: "ustring \<Rightarrow> ustring" where
  "escape_sql v = replace_chr (of_char (CHR 0x27)) [of_char (CHR 0x27), of_char (CHR 0x27)] v"

text \<open>
  \<^verbatim>\<open>html_escape\<close>: five chained \<^verbatim>\<open>replace\<close> calls, the ampersand first.
\<close>

definition html_escape :: "ustring \<Rightarrow> ustring" where
  "html_escape v =
     replace_chr (of_char (CHR 0x27)) (ustr ''&#x27;'')
       (replace_chr (of_char (CHR 0x22)) (ustr ''&quot;'')
         (replace_chr (of_char CHR ''>'') (ustr ''&gt;'')
           (replace_chr (of_char CHR ''<'') (ustr ''&lt;'')
             (replace_chr (of_char CHR ''&'') (ustr ''&amp;'') v))))"

text \<open>
  What the claimed replacements do to one character: each of the five special characters
  becomes its entity, every other character stays.
\<close>

definition esc1 :: "uchar \<Rightarrow> ustring" where
  "esc1 c =
     (if c = of_char CHR ''&'' then ustr ''&amp;''
      else if c = of_char CHR ''<'' then ustr ''&lt;''
      else if c = of_char CHR ''>'' then ustr ''&gt;''
      else if c = of_char (CHR 0x22) then ustr ''&quot;''
      else if c = of_char (CHR 0x27) then ustr ''&#x27;''
      else [c])"

text \<open>
  \<^verbatim>\<open>strip_url_query\<close>: \<^verbatim>\<open>re.sub(r"(https?://[^\s?]+)\?.*", r"\1", value)\<close>.  The question
  mark is U+003F; the dot of the pattern matches everything except newline.  \<^verbatim>\<open>re.sub\<close>
  replaces the leftmost match by its first group and goes on behind the match.
\<close>

definition URLQ_group :: rx where
  "URLQ_group =
     rx_seq (rx_lit (ustr ''http''))
       (rx_seq (rx_opt (rx_chr (\<lambda>c. c = of_char CHR ''s'')))
         (rx_seq (rx_lit (ustr ''://'')) (rx_plus (\<lambda>c. \<not> isspace c \<and> c \<noteq> 63))))"

definition URLQ_tail :: rx where
  "URLQ_tail = rx_seq (rx_chr (\<lambda>c. c = 63)) (rx_star (\<lambda>c. c \<noteq> 10))"

definition URLQ_match_at :: "ustring \<Rightarrow> (ustring \<times> ustring) option" where
  "URLQ_match_at s =
     (case concat (map (\<lambda>r1. map (\<lambda>r2. (take (length s - length r1) s, r2)) (URLQ_tail r1))
                    (URLQ_group s))
      of [] \<Rightarrow> None | m # _ \<Rightarrow> Some m)"

lemma rx_star_length: "r \<in> set (rx_star P s) \<Longrightarrow> length r \<le> length s"
  by (induction s) (auto split: if_splits)

lemma rx_chr_length: "r \<in> set (rx_chr P s) \<Longrightarrow> length r < length s"
  by (auto simp: rx_chr_def split: list.splits if_splits)

lemma URLQ_tail_length: "r \<in> set (URLQ_tail s) \<Longrightarrow> length r < length s"
  by (auto simp: URLQ_tail_def rx_seq_def dest!: rx_star_length rx_chr_length)

lemma rx_plus_length: "r \<in> set (rx_plus P s) \<Longrightarrow> length r < length s"
  by (auto simp: rx_plus_def split: list.splits if_splits dest!: rx_star_length)

lemma rx_lit_length: "r \<in> set (rx_lit l s) \<Longrightarrow> length r \<le> length s"
  by (auto simp: rx_lit_def split: if_splits)

lemma rx_opt_chr_length: "r \<in> set (rx_opt (rx_chr P) s) \<Longrightarrow> length r \<le> length s"
  by (auto simp: rx_opt_def dest!: rx_chr_length)

lemma URLQ_group_length: "r \<in> set (URLQ_group s) \<Longrightarrow> length r \<le> length s"
  by (fastforce simp: URLQ_group_def rx_seq_def dest!: rx_plus_length rx_lit_length rx_opt_chr_length)

lemma URLQ_match_at_length: "URLQ_match_at s = Some (g, r) \<Longrightarrow> length r < length s"
proof -
  let ?L = "concat (map (\<lambda>r1. map (\<lambda>r2. (take (length s - length r1) s, r2)) (URLQ_tail r1))
                    (URLQ_group s))"
  assume "URLQ_match_at s = Some (g, r)"
  then obtain rest where "?L = (g, r) # rest"
    by (auto simp: URLQ_match_at_def split: list.splits)
  then have "(g, r) \<in> set ?L" by simp
  then obtain r1 where "r1 \<in> set (URLQ_group s)" "r \<in> set (URLQ_tail r1)" by auto
  then show ?thesis using URLQ_group_length URLQ_tail_length by fastforce
qed

function strip_url_query :: "ustring \<Rightarrow> ustring" where
  "strip_url_query s =
     (case URLQ_match_at s of
        Some (g, r) \<Rightarrow> g @ strip_url_query r
      | None \<Rightarrow> (case s of [] \<Rightarrow> [] | c # cs \<Rightarrow> c # strip_url_query cs))"
  by pat_completeness auto
termination
  by (relation "measure length") (auto dest: URLQ_match_at_length)

section \<open>Type detection\<close>

datatype kind = Email | Phone | URL | JSON | Env | Text

text \<open>\<^verbatim>\<open>s.startswith(c)\<close> and \<^verbatim>\<open>s.endswith(c)\<close> for one character.\<close>

definition startswith :: "ustring \<Rightarrow> uchar \<Rightarrow> bool" where
  "startswith s c \<longleftrightarrow> take 1 s = [c]"

definition endswith :: "ustring \<Rightarrow> uchar \<Rightarrow> bool" where
  "endswith s c \<longleftrightarrow> s \<noteq> [] \<and> last s = c"

text \<open>
  \<^verbatim>\<open>detect_type\<close>.  The braces are U+007B and U+007D, the brackets U+005B and U+005D, the
  equals sign U+003D and the hash U+0023.  The \<^verbatim>\<open>try\<close> around \<^verbatim>\<open>json.loads\<close> passes on
  every exception, so a text that does not parse goes on to the next test.
\<close>

definition detect_type :: "ustring \<Rightarrow> kind" where
  "detect_type value =
     (let v = strip value in
      if ((startswith v 123 \<and> endswith v 125) \<or> (startswith v 91 \<and> endswith v 93))
         \<and> json_loads v \<noteq> None then JSON
      else if 61 \<in> set v \<and>
         (let lines = filter (\<lambda>ln. strip ln \<noteq> [] \<and> \<not> startswith (strip ln) 35) (splitlines v)
          in lines \<noteq> [] \<and> list_all (\<lambda>ln. 61 \<in> set ln) lines) then Env
      else if fullmatch EMAIL_RE v then Email
      else if fullmatch PHONE_RE v then Phone
      else if fullmatch URL_RE v then URL
      else Text)"

section \<open>Main sanitization\<close>

text \<open>
  A list of results, each of which may be an exception: the first exception wins, as it
  would leave a loop or a comprehension.
\<close>

fun sequence :: "(error + 'a) list \<Rightarrow> error + 'a list" where
  "sequence [] = Inr []"
| "sequence (x # xs) =
     (case x of
        Inl e \<Rightarrow> Inl e
      | Inr a \<Rightarrow> (case sequence xs of Inl e \<Rightarrow> Inl e | Inr as \<Rightarrow> Inr (a # as)))"

text \<open>\<^verbatim>\<open>k, val = line.split("=", 1)\<close>, for a line that contains an equals sign.\<close>

definition env_key :: "ustring \<Rightarrow> ustring" where
  "env_key line = takeWhile (\<lambda>c. c \<noteq> 61) line"

definition env_val :: "ustring \<Rightarrow> ustring" where
  "env_val line = drop 1 (dropWhile (\<lambda>c. c \<noteq> 61) line)"

lemma length_strip: "length (strip s) \<le> length s"
proof -
  have "length (strip s) \<le> length (dropWhile isspace s)"
    unfolding strip_def using length_dropWhile_le [of isspace "rev (dropWhile isspace s)"] by simp
  then show ?thesis using length_dropWhile_le [of isspace s] by simp
qed

lemma length_env_val: "61 \<in> set line \<Longrightarrow> length (env_val line) < length line"
proof -
  assume "61 \<in> set line"
  then have "dropWhile (\<lambda>c. c \<noteq> 61) line \<noteq> []" by (simp add: dropWhile_eq_Nil_conv)
  then have "length (env_val line) < length (dropWhile (\<lambda>c. c \<noteq> 61) line)"
    by (simp add: env_val_def)
  then show ?thesis using length_dropWhile_le [of "\<lambda>c. c \<noteq> 61" line] by simp
qed

lemma splitlines_length: "ln \<in> set (splitlines s) \<Longrightarrow> length ln \<le> length s"
proof (induction s arbitrary: ln rule: splitlines.induct)
  case 1
  then show ?case by simp
next
  case (2 c cs)
  show ?case
  proof (cases "c = 13 \<and> take 1 cs = [10]")
    case True
    with "2.prems" have "ln = [] \<or> ln \<in> set (splitlines (drop 1 cs))" by auto
    then show ?thesis using "2.IH"(1) [OF True, of ln] by auto
  next
    case nocrlf: False
    show ?thesis
    proof (cases "is_linebreak c")
      case True
      with nocrlf "2.prems" have "ln = [] \<or> ln \<in> set (splitlines cs)" by auto
      then show ?thesis using "2.IH"(2) [OF nocrlf True, of ln] by auto
    next
      case False
      show ?thesis
      proof (cases "splitlines cs")
        case Nil
        with nocrlf False "2.prems" show ?thesis by auto
      next
        case (Cons l ls)
        with nocrlf False "2.prems" have "ln = c # l \<or> ln \<in> set ls" by auto
        then show ?thesis
          using "2.IH"(3) [OF nocrlf False, of l] "2.IH"(3) [OF nocrlf False, of ln] Cons by auto
      qed
    qed
  qed
qed

lemma weight_member: "v \<in> set vs \<Longrightarrow> weight v \<le> sum_list (map weight vs)"
  by (induction vs) auto

lemma weight_member_pair:
  "(k, v) \<in> set ps \<Longrightarrow> weight v \<le> sum_list (map (\<lambda>(k, v). weight v) ps)"
  by (induction ps) auto

text \<open>
  \<^verbatim>\<open>sanitize_value\<close> with its local function \<^verbatim>\<open>recurse\<close>.  \<open>None\<close> as the kind stands
  for the missing override.  The \<^verbatim>\<open>try\<close> of the JSON branch catches every exception of
  \<^verbatim>\<open>json.loads\<close> and of \<^verbatim>\<open>recurse\<close>; no other branch catches anything.  \<open>fr\<close> is the
  text that \<^verbatim>\<open>json.dumps\<close> writes for a \<^verbatim>\<open>float\<close>.
\<close>

function sanitize_value :: "(ustring \<Rightarrow> ustring) \<Rightarrow> ustring \<Rightarrow> kind option \<Rightarrow> error + (kind \<times> ustring)"
  and recurse :: "(ustring \<Rightarrow> ustring) \<Rightarrow> json \<Rightarrow> error + json"
where
  "sanitize_value fr v kind =
     (let detected = (case kind of Some k \<Rightarrow> k | None \<Rightarrow> detect_type v) in
      if detected = Email then Inr (detected, mask_email v)
      else if detected = Phone then
        (case mask_phone v of Inl e \<Rightarrow> Inl e | Inr m \<Rightarrow> Inr (detected, m))
      else if detected = URL then Inr (detected, strip_url_query v)
      else if detected = JSON then
        (case json_loads v of
           None \<Rightarrow> Inr (Text, html_escape v)
         | Some obj \<Rightarrow>
             (case recurse fr obj of
                Inl e \<Rightarrow> Inr (Text, html_escape v)
              | Inr sanitized \<Rightarrow> Inr (detected, json_dumps fr sanitized)))
      else if detected = Env then
        (case sequence (map (\<lambda>line.
                 if strip line = [] \<or> startswith (strip line) 35 then Inr line
                 else if 61 \<notin> set line then Inr line
                 else
                   (case sanitize_value fr (strip (env_val line))
                           (Some (detect_type (strip (env_val line)))) of
                      Inl e \<Rightarrow> Inl e
                    | Inr (t, sanitized_val) \<Rightarrow> Inr (env_key line @ [61] @ sanitized_val)))
               (splitlines v)) of
           Inl e \<Rightarrow> Inl e
         | Inr lines \<Rightarrow> Inr (detected, join_with [10] lines))
      else Inr (Text, html_escape (escape_sql v)))"
| "recurse fr (JObj ps) =
     (case sequence (map (\<lambda>(k, val).
                 case recurse fr val of Inl e \<Rightarrow> Inl e | Inr val' \<Rightarrow> Inr (k, val')) ps) of
        Inl e \<Rightarrow> Inl e
      | Inr ps' \<Rightarrow> Inr (JObj ps'))"
| "recurse fr (JArr vs) =
     (case sequence (map (recurse fr) vs) of Inl e \<Rightarrow> Inl e | Inr vs' \<Rightarrow> Inr (JArr vs'))"
| "recurse fr (JStr leaf) =
     (case sanitize_value fr leaf (Some (detect_type leaf)) of
        Inl e \<Rightarrow> Inl e
      | Inr (t, sanitized) \<Rightarrow> Inr (JStr sanitized))"
| "recurse fr JNull = Inr JNull"
| "recurse fr (JBool b) = Inr (JBool b)"
| "recurse fr (JInt i) = Inr (JInt i)"
| "recurse fr (JFloat l) = Inr (JFloat l)"
  by pat_completeness auto

termination
proof (relation "measure (\<lambda>x. case x of
    Inl (fr, v, kind) \<Rightarrow> 2 * length v + 1
  | Inr (fr, t) \<Rightarrow> 2 * weight t)", goal_cases)
  case 1
  show ?case by simp
next
  case (2 fr v kind detected obj)
  then show ?case using json_loads_weight [of v obj] by simp
next
  case (3 fr v kind detected line)
  then show ?case
    using splitlines_length [of line v] length_env_val [of line] length_strip [of "env_val line"]
    by simp
next
  case (4 fr ps p k val)
  then show ?case using weight_member_pair [of k val ps] by simp
next
  case (5 fr vs v)
  then show ?case using weight_member [of v vs] by simp
next
  case (6 fr leaf)
  show ?case by simp
qed

declare sanitize_value.simps [simp del]

text \<open>
  Reference functions for the properties below.  \<open>mask_digits k\<close> masks the first \<open>k\<close>
  decimal digits of a string and keeps every other character.  \<open>map_strings f\<close> applies
  \<open>f\<close> to every string leaf of a value and keeps keys, order and all other leaves.
  \<open>sanitized fr s\<close> is the second component of \<^verbatim>\<open>sanitize_value(s)\<close>.
\<close>

fun mask_digits :: "nat \<Rightarrow> ustring \<Rightarrow> ustring" where
  "mask_digits k [] = []"
| "mask_digits k (c # cs) =
     (if isdecimal c then (if 0 < k then 42 # mask_digits (k - 1) cs else c # mask_digits 0 cs)
      else c # mask_digits k cs)"

fun map_strings :: "(ustring \<Rightarrow> ustring) \<Rightarrow> json \<Rightarrow> json" where
  "map_strings f (JStr s) = JStr (f s)"
| "map_strings f (JArr vs) = JArr (map (map_strings f) vs)"
| "map_strings f (JObj ps) = JObj (map (\<lambda>(k, v). (k, map_strings f v)) ps)"
| "map_strings f JNull = JNull"
| "map_strings f (JBool b) = JBool b"
| "map_strings f (JInt i) = JInt i"
| "map_strings f (JFloat l) = JFloat l"

definition sanitized :: "(ustring \<Rightarrow> ustring) \<Rightarrow> ustring \<Rightarrow> ustring" where
  "sanitized fr s = (case sanitize_value fr s None of Inr (k, out) \<Rightarrow> out | Inl e \<Rightarrow> s)"

text \<open>
  What Env sanitization writes for one line: a blank line, a comment line and a line
  without an equals sign as they are; any other line as its key, the equals sign and the
  sanitized form of its trimmed value.
\<close>

definition env_line_out :: "(ustring \<Rightarrow> ustring) \<Rightarrow> ustring \<Rightarrow> ustring" where
  "env_line_out fr line =
     (if strip line = [] \<or> startswith (strip line) 35 then line
      else if 61 \<notin> set line then line
      else env_key line @ [61] @ sanitized fr (strip (env_val line)))"

text \<open>\<^verbatim>\<open>sub in s\<close>: \<open>sub\<close> occurs in \<open>s\<close> as a contiguous piece.\<close>

fun contains :: "ustring \<Rightarrow> ustring \<Rightarrow> bool" where
  "contains sub [] = (sub = [])"
| "contains sub (c # cs) = (take (length sub) (c # cs) = sub \<or> contains sub cs)"

text \<open>
  The first two tests of the detector in the words of its contract.  A text has the JSON
  shape when it is delimited by braces or by brackets and parses as JSON.  It has the Env
  shape when it contains an equals sign and, among its lines that are neither blank nor
  comments, there is at least one and each contains an equals sign.
\<close>

definition json_shape :: "ustring \<Rightarrow> bool" where
  "json_shape v \<longleftrightarrow>
     ((startswith v 123 \<and> endswith v 125) \<or> (startswith v 91 \<and> endswith v 93)) \<and>
     (\<exists>t. json_loads v = Some t)"

definition env_shape :: "ustring \<Rightarrow> bool" where
  "env_shape v \<longleftrightarrow>
     61 \<in> set v \<and>
     (\<exists>ln\<in>set (splitlines v). strip ln \<noteq> [] \<and> \<not> startswith (strip ln) 35) \<and>
     (\<forall>ln\<in>set (splitlines v). strip ln \<noteq> [] \<and> \<not> startswith (strip ln) 35 \<longrightarrow> 61 \<in> set ln)"

text \<open>
  Notions for reading back what \<^verbatim>\<open>json.dumps\<close> wrote.  After a printed value comes a
  comma, a closing bracket, a closing brace or the end of the text (\<open>safe_rest\<close>).
  \<open>map_floats fr\<close> replaces the text of every \<^verbatim>\<open>float\<close> leaf by the text that is printed
  for it.  In a value read by \<^verbatim>\<open>json.loads\<close> the keys of every object are distinct.
  \<open>float_ok fr\<close> says that the printed text of a \<^verbatim>\<open>float\<close> is read back as that
  \<^verbatim>\<open>float\<close>, which holds of \<^verbatim>\<open>float.__repr__\<close>.
\<close>

definition safe_rest :: "ustring \<Rightarrow> bool" where
  "safe_rest r \<longleftrightarrow> (case r of [] \<Rightarrow> True | c # _ \<Rightarrow> c = 44 \<or> c = 93 \<or> c = 125)"

fun map_floats :: "(ustring \<Rightarrow> ustring) \<Rightarrow> json \<Rightarrow> json" where
  "map_floats fr (JFloat l) = JFloat (fr l)"
| "map_floats fr (JArr vs) = JArr (map (map_floats fr) vs)"
| "map_floats fr (JObj ps) = JObj (map (\<lambda>(k, v). (k, map_floats fr v)) ps)"
| "map_floats fr JNull = JNull"
| "map_floats fr (JBool b) = JBool b"
| "map_floats fr (JInt i) = JInt i"
| "map_floats fr (JStr s) = JStr s"

fun distinct_keys :: "json \<Rightarrow> bool" where
  "distinct_keys (JObj ps) \<longleftrightarrow> distinct (map fst ps) \<and> (\<forall>(k, v)\<in>set ps. distinct_keys v)"
| "distinct_keys (JArr vs) \<longleftrightarrow> (\<forall>v\<in>set vs. distinct_keys v)"
| "distinct_keys _ \<longleftrightarrow> True"

definition float_ok :: "(ustring \<Rightarrow> ustring) \<Rightarrow> bool" where
  "float_ok fr \<longleftrightarrow>
     (\<forall>l r. safe_rest r \<longrightarrow> scan_once (fr l @ r) = Some (JFloat (fr l), r))"

section \<open>Language literal escaping\<close>

text \<open>
  \<^verbatim>\<open>_js_literal\<close>, \<^verbatim>\<open>_java_literal\<close> and \<^verbatim>\<open>_c_literal\<close>.  The backslash is U+005C, the double
  quote U+0022, newline U+000A, carriage return U+000D, \<open>n\<close> U+006E and \<open>r\<close> U+0072.
\<close>

definition js_literal :: "ustring \<Rightarrow> ustring" where
  "js_literal s =
     [34] @ replace_chr 34 [92, 34] (replace_chr 92 [92, 92] s) @ [34]"

definition java_literal :: "ustring \<Rightarrow> ustring" where
  "java_literal s =
     [34] @ replace_chr 13 [92, 114]
              (replace_chr 10 [92, 110]
                (replace_chr 34 [92, 34] (replace_chr 92 [92, 92] s))) @ [34]"

definition c_literal :: "ustring \<Rightarrow> ustring" where
  "c_literal s =
     [34] @ replace_chr 10 [92, 110]
              (replace_chr 34 [92, 34] (replace_chr 92 [92, 92] s)) @ [34]"

section \<open>Properties of the escapers\<close>

lemma length_replace_chr_ge:
  "new \<noteq> [] \<Longrightarrow> length s \<le> length (replace_chr old new s)"
  by (induction s) (auto simp: replace_chr_def Suc_le_eq neq_Nil_conv)

lemma length_replace_chr_gt:
  "old \<in> set s \<Longrightarrow> 1 < length new \<Longrightarrow> length s < length (replace_chr old new s)"
proof (induction s)
  case Nil
  then show ?case by simp
next
  case (Cons c s)
  have ge: "length s \<le> length (replace_chr old new s)"
    using Cons.prems(2) by (intro length_replace_chr_ge) auto
  show ?case
  proof (cases "c = old")
    case True
    then show ?thesis using ge Cons.prems(2) by (simp add: replace_chr_def)
  next
    case False
    then have "old \<in> set s" using Cons.prems(1) by simp
    then have "length s < length (replace_chr old new s)"
      using Cons.IH Cons.prems(2) by simp
    then show ?thesis using False by (simp add: replace_chr_def)
  qed
qed

lemma set_replace_chr:
  "set (replace_chr old new s) = (set s - {old}) \<union> (if old \<in> set s then set new else {})"
  by (induction s) (auto simp: replace_chr_def)

lemma amp_in_html_escape:
  assumes "c \<in> set s" and "c = 38 \<or> c = 60 \<or> c = 62 \<or> c = 34 \<or> c = 39"
  shows "38 \<in> set (html_escape s)"
  using assms by (auto simp: html_escape_def set_replace_chr ustr_def)

lemma html_escape_grows:
  assumes "38 \<in> set s"
  shows "length s < length (html_escape s)"
proof -
  let ?a = "replace_chr 38 (ustr ''&amp;'') s"
  have 1: "length s < length ?a"
    using assms by (intro length_replace_chr_gt) (auto simp: ustr_def)
  have "length ?a \<le> length (html_escape s)"
    unfolding html_escape_def
    by (auto simp: ustr_def intro!: order_trans[OF _ length_replace_chr_ge])
  with 1 show ?thesis by simp
qed

lemma replace_chr_append:
  "replace_chr old new (xs @ ys) = replace_chr old new xs @ replace_chr old new ys"
  by (simp add: replace_chr_def)

lemma html_escape_append: "html_escape (xs @ ys) = html_escape xs @ html_escape ys"
  by (simp add: html_escape_def replace_chr_append)

lemma html_escape_single: "html_escape [c] = esc1 c"
  by (simp add: html_escape_def esc1_def replace_chr_def ustr_def)

lemma html_escape_charwise: "html_escape s = concat (map esc1 s)"
proof (induction s)
  case Nil
  show ?case by (simp add: html_escape_def replace_chr_def)
next
  case (Cons c s)
  have "html_escape (c # s) = html_escape ([c] @ s)" by simp
  also have "\<dots> = esc1 c @ html_escape s"
    by (simp only: html_escape_append html_escape_single)
  finally show ?case using Cons.IH by simp
qed

text \<open>
  Claim C8.  \<^verbatim>\<open>html_escape\<close> replaces the ampersand by \<^verbatim>\<open>&amp;\<close>, less-than by \<^verbatim>\<open>&lt;\<close>,
  greater-than by \<^verbatim>\<open>&gt;\<close>, the double quote (U+0022) by \<^verbatim>\<open>&quot;\<close> and the single quote
  (U+0027) by \<^verbatim>\<open>&#x27;\<close>.  Because the ampersand is replaced first, the five chained
  replacements amount to one pass that rewrites each character of the input once
  (\<open>esc1\<close>): no entity that a replacement introduces is escaped again.  And the function
  is not idempotent on the strings it changes: whenever \<open>s\<close> contains one of the five
  characters, escaping the escaped string again gives a different string, since the first
  pass leaves an ampersand and the second lengthens every string that contains one.
\<close>

theorem html_escape_entities_not_idempotent:
  "html_escape s = concat (map esc1 s) \<and>
   ((\<exists>c\<in>set s. c \<in> set (ustr ''&<>'' @ [34, 39])) \<longrightarrow>
      html_escape (html_escape s) \<noteq> html_escape s)"
proof (intro conjI impI)
  show "html_escape s = concat (map esc1 s)" by (rule html_escape_charwise)
next
  assume "\<exists>c\<in>set s. c \<in> set (ustr ''&<>'' @ [34, 39])"
  then obtain c where c: "c \<in> set s" "c \<in> set (ustr ''&<>'' @ [34, 39])" by blast
  have "38 \<in> set (html_escape s)"
    using c by (intro amp_in_html_escape[of c]) (auto simp: ustr_def)
  then have "length (html_escape s) < length (html_escape (html_escape s))"
    by (rule html_escape_grows)
  then show "html_escape (html_escape s) \<noteq> html_escape s" by auto
qed

theorem html_escape_entities_not_idempotent_witness:
  "(\<exists>c\<in>set (ustr ''a&<>'' @ [34, 39]). c \<in> set (ustr ''&<>'' @ [34, 39])) \<and>
   html_escape (ustr ''a&<>'' @ [34, 39]) = ustr ''a&amp;&lt;&gt;&quot;&#x27;'' \<and>
   concat (map esc1 (ustr ''a&<>'' @ [34, 39])) = ustr ''a&amp;&lt;&gt;&quot;&#x27;'' \<and>
   html_escape (html_escape (ustr ''a&<>'' @ [34, 39])) \<noteq> html_escape (ustr ''a&<>'' @ [34, 39])"
proof -
  have h: "\<exists>c\<in>set (ustr ''a&<>'' @ [34, 39]). c \<in> set (ustr ''&<>'' @ [34, 39])"
    by (auto simp: ustr_def)
  have e: "concat (map esc1 (ustr ''a&<>'' @ [34, 39])) = ustr ''a&amp;&lt;&gt;&quot;&#x27;''"
    by (simp add: esc1_def ustr_def)
  have t: "html_escape (ustr ''a&<>'' @ [34, 39]) = concat (map esc1 (ustr ''a&<>'' @ [34, 39]))"
    "html_escape (html_escape (ustr ''a&<>'' @ [34, 39])) \<noteq> html_escape (ustr ''a&<>'' @ [34, 39])"
    using html_escape_entities_not_idempotent [of "ustr ''a&<>'' @ [34, 39]"] h by blast+
  show ?thesis
    by (intro conjI) (rule h, rule trans [OF t(1) e], rule e, rule t(2))
qed

text \<open>
  Claim C7.  The Java escaper writes newline as backslash-n and carriage return as
  backslash-r, as the C-family escaper does for newline.  The JavaScript escaper rewrites
  only backslashes and double quotes: a newline or a carriage return of the input stays raw
  between the quotes.
\<close>

theorem js_literal_newline_raw:
  "js_literal [10] = [34, 10, 34] \<and> js_literal [13] = [34, 13, 34] \<and>
   java_literal [10] = [34, 92, 110, 34] \<and> java_literal [13] = [34, 92, 114, 34] \<and>
   c_literal [10] = [34, 92, 110, 34]"
  by (simp add: js_literal_def java_literal_def c_literal_def replace_chr_def)

section \<open>Properties of the masks\<close>

lemma isdecimal_low: "c < 1632 \<Longrightarrow> isdecimal c \<longleftrightarrow> 48 \<le> c \<and> c \<le> 57"
  by (simp add: isdecimal_def decimal_zeros_def) arith

lemma isdigit_low: "c < 178 \<Longrightarrow> isdigit c \<longleftrightarrow> 48 \<le> c \<and> c \<le> 57"
  by (simp add: isdigit_def other_digits_def isdecimal_low)

lemma isdigit_178: "isdigit 178 \<and> \<not> isdecimal 178"
  by (simp add: isdigit_def other_digits_def isdecimal_low)

text \<open>
  Claim C5.  On \<^verbatim>\<open>alice@example.com\<close> the domain group is \<^verbatim>\<open>example.com\<close>; it is split at the
  full stop and each label is masked on its own, so \<^verbatim>\<open>mask_email\<close> returns
  \<^verbatim>\<open>a***e@e*****e.c*m\<close>, which is not the \<^verbatim>\<open>a***e@e*****m\<close> of the function's docstring.
\<close>

theorem mask_email_alice:
  "mask_email (ustr ''alice@example.com'') = ustr ''a***e@e*****e.c*m'' \<and>
   mask_email (ustr ''alice@example.com'') \<noteq> ustr ''a***e@e*****m''"
  by (simp add: mask_email_def EMAIL_groups_at_def EMAIL_local_def EMAIL_domain_def rx_seq_def
      rx_plus_def rx_chr_def email_cls_def isspace_def mask_part_def ustr_def)

text \<open>
  Claim C4.  The digits are collected with \<^verbatim>\<open>\D\<close> and put back with \<^verbatim>\<open>str.isdigit\<close>.
  Superscript two (U+00B2) passes \<^verbatim>\<open>isdigit\<close> without being a decimal digit, so on
  \<^verbatim>\<open>1234\<close> followed by it the loop asks the iterator for a fifth masked digit and
  \<^verbatim>\<open>StopIteration\<close> leaves \<^verbatim>\<open>mask_phone\<close>.  On \<^verbatim>\<open>+1 (555) 123-4567\<close> every delimiter
  stays in place and only 6 and 7 stay readable.
\<close>

theorem mask_phone_superscript_raises:
  "isdigit 178 \<and> \<not> isdecimal 178 \<and>
   mask_phone (ustr ''1234'' @ [178]) = Inl StopIteration \<and>
   mask_phone (ustr ''+1 (555) 123-4567'') = Inr (ustr ''+* (***) ***-**67'')"
  by (simp add: isdigit_178 mask_phone_def isdigit_low isdecimal_low ustr_def Let_def)

section \<open>Properties of the sanitizer\<close>

lemma isspace_not_digit: "isspace c \<Longrightarrow> \<not> isdigit c"
  by (auto simp: isspace_def isdigit_def isdecimal_def decimal_zeros_def other_digits_def)

lemma phone_cls_digit: "phone_cls c \<Longrightarrow> isdigit c \<Longrightarrow> isdecimal c"
  by (auto simp: phone_cls_def isdigit_def other_digits_def)

lemma plus_not_digit: "\<not> isdigit 43"
  by (simp add: isdigit_low)

lemma set_rx_chr: "set (rx_chr P s) = {r. \<exists>c. P c \<and> s = c # r}"
  by (auto simp: rx_chr_def split: list.splits)

lemma set_rx_lit: "set (rx_lit l s) = {r. s = l @ r}"
  by (auto simp: rx_lit_def) (metis append_eq_conv_conj)+

lemma set_rx_seq: "set (rx_seq m1 m2 s) = (\<Union>r1\<in>set (m1 s). set (m2 r1))"
  by (simp add: rx_seq_def)

lemma set_rx_opt: "set (rx_opt m s) = set (m s) \<union> {s}"
  by (simp add: rx_opt_def)

lemma set_rx_star: "set (rx_star P s) = {r. \<exists>p. s = p @ r \<and> (\<forall>c\<in>set p. P c)}"
proof (induction s)
  case Nil
  then show ?case by auto
next
  case (Cons c cs)
  show ?case
  proof (cases "P c")
    case True
    have "{r. \<exists>p. c # cs = p @ r \<and> (\<forall>x\<in>set p. P x)} =
          {r. \<exists>p. cs = p @ r \<and> (\<forall>x\<in>set p. P x)} \<union> {c # cs}" (is "?A = ?B")
    proof
      show "?A \<subseteq> ?B"
      proof
        fix r assume "r \<in> ?A"
        then obtain p where p: "c # cs = p @ r" "\<forall>x\<in>set p. P x" by blast
        show "r \<in> ?B"
        proof (cases p)
          case Nil
          with p show ?thesis by simp
        next
          case (Cons a p')
          with p have "cs = p' @ r" "\<forall>x\<in>set p'. P x" by auto
          then show ?thesis by blast
        qed
      qed
      show "?B \<subseteq> ?A"
      proof
        fix r assume "r \<in> ?B"
        then consider "r = c # cs" | p where "cs = p @ r" "\<forall>x\<in>set p. P x" by blast
        then show "r \<in> ?A"
        proof cases
          case 1
          then have "c # cs = [] @ r \<and> (\<forall>x\<in>set []. P x)" by simp
          then show ?thesis by blast
        next
          case 2
          then have "c # cs = (c # p) @ r \<and> (\<forall>x\<in>set (c # p). P x)" using True by simp
          then show ?thesis by blast
        qed
      qed
    qed
    then show ?thesis using True Cons.IH by simp
  next
    case False
    have "{r. \<exists>p. c # cs = p @ r \<and> (\<forall>x\<in>set p. P x)} = {c # cs}"
    proof -
      have "\<And>p r. c # cs = p @ r \<Longrightarrow> \<forall>x\<in>set p. P x \<Longrightarrow> p = []"
        using False by (case_tac p) auto
      then show ?thesis by auto
    qed
    then show ?thesis using False by simp
  qed
qed

lemma set_rx_plus:
  "set (rx_plus P s) = {r. \<exists>p. p \<noteq> [] \<and> s = p @ r \<and> (\<forall>c\<in>set p. P c)}"
proof (cases s)
  case Nil
  then show ?thesis by (simp add: rx_plus_def)
next
  case (Cons c cs)
  show ?thesis
  proof (cases "P c")
    case True
    have "{r. \<exists>p. p \<noteq> [] \<and> c # cs = p @ r \<and> (\<forall>x\<in>set p. P x)} =
          {r. \<exists>p. cs = p @ r \<and> (\<forall>x\<in>set p. P x)}" (is "?A = ?B")
    proof
      show "?A \<subseteq> ?B"
      proof
        fix r assume "r \<in> ?A"
        then obtain p where p: "p \<noteq> []" "c # cs = p @ r" "\<forall>x\<in>set p. P x" by blast
        then obtain a p' where "p = a # p'" by (cases p) auto
        with p have "cs = p' @ r" "\<forall>x\<in>set p'. P x" by auto
        then show "r \<in> ?B" by blast
      qed
      show "?B \<subseteq> ?A"
      proof
        fix r assume "r \<in> ?B"
        then obtain p where "cs = p @ r" "\<forall>x\<in>set p. P x" by blast
        then have "c # p \<noteq> [] \<and> c # cs = (c # p) @ r \<and> (\<forall>x\<in>set (c # p). P x)"
          using True by simp
        then show "r \<in> ?A" by blast
      qed
    qed
    then show ?thesis using True Cons by (simp add: rx_plus_def set_rx_star)
  next
    case False
    have "\<And>p r. p \<noteq> [] \<Longrightarrow> c # cs = p @ r \<Longrightarrow> \<forall>x\<in>set p. P x \<Longrightarrow> False"
      using False by (case_tac p) auto
    then have "{r. \<exists>p. p \<noteq> [] \<and> c # cs = p @ r \<and> (\<forall>x\<in>set p. P x)} = {}" by blast
    then show ?thesis using False Cons by (simp add: rx_plus_def)
  qed
qed

lemma set_rx_atleast:
  "set (rx_atleast n P s) = {r. \<exists>p. n \<le> length p \<and> s = p @ r \<and> (\<forall>c\<in>set p. P c)}"
  by (auto simp: rx_atleast_def set_rx_star)

lemma fullmatch_PHONE_chars:
  assumes "fullmatch PHONE_RE v"
  shows "\<forall>c\<in>set v. c = 43 \<or> phone_cls c"
proof -
  from assms obtain r1 r2 r3 where
    r1: "r1 \<in> set (rx_opt (rx_chr (\<lambda>c. c = 43)) v)" and
    r2: "r2 \<in> set (rx_chr isdecimal r1)" and
    r3: "r3 \<in> set (rx_atleast 6 phone_cls r2)" and
    e: "[] \<in> set (rx_chr isdecimal r3)"
    by (auto simp: fullmatch_def PHONE_RE_def set_rx_seq)
  from r1 have v: "v = r1 \<or> v = 43 # r1" by (auto simp: set_rx_opt set_rx_chr)
  from r2 obtain d1 where d1: "isdecimal d1" "r1 = d1 # r2" by (auto simp: set_rx_chr)
  from r3 obtain p where p: "r2 = p @ r3" "\<forall>c\<in>set p. phone_cls c" by (auto simp: set_rx_atleast)
  from e obtain d2 where d2: "isdecimal d2" "r3 = [d2]" by (auto simp: set_rx_chr)
  have "\<forall>c\<in>set r1. phone_cls c" using d1 p d2 by (auto simp: phone_cls_def)
  then show ?thesis using v by auto
qed

lemma set_dropWhile_cases: "c \<in> set s \<Longrightarrow> c \<in> set (dropWhile P s) \<or> P c"
  by (induction s) (auto split: if_splits)

lemma set_strip_cases: "c \<in> set s \<Longrightarrow> c \<in> set (strip s) \<or> isspace c"
proof -
  assume "c \<in> set s"
  then have "c \<in> set (dropWhile isspace s) \<or> isspace c" by (rule set_dropWhile_cases)
  then show ?thesis
    using set_dropWhile_cases [of c "rev (dropWhile isspace s)" isspace] by (auto simp: strip_def)
qed

lemma isdecimal_isdigit: "isdecimal c \<Longrightarrow> isdigit c"
  by (simp add: isdigit_def)

lemma detect_Phone_digits:
  assumes "detect_type s = Phone"
  shows "\<forall>c\<in>set s. isdigit c \<longrightarrow> isdecimal c"
proof
  fix c assume c: "c \<in> set s"
  from assms have "fullmatch PHONE_RE (strip s)"
    by (simp add: detect_type_def Let_def split: if_splits)
  then have ph: "\<forall>c\<in>set (strip s). c = 43 \<or> phone_cls c" by (rule fullmatch_PHONE_chars)
  from c have "c \<in> set (strip s) \<or> isspace c" by (rule set_strip_cases)
  then show "isdigit c \<longrightarrow> isdecimal c"
    using ph isspace_not_digit [of c] plus_not_digit phone_cls_digit [of c] by auto
qed

lemma refill_mask_digits:
  assumes "\<forall>c\<in>set v. isdigit c \<longrightarrow> isdecimal c" and "k \<le> length (filter isdecimal v)"
  shows "refill (replicate k 42 @ drop k (filter isdecimal v)) v = Inr (mask_digits k v)"
  using assms
proof (induction v arbitrary: k)
  case Nil
  then show ?case by simp
next
  case (Cons c cs)
  show ?case
  proof (cases "isdecimal c")
    case False
    then have nd: "\<not> isdigit c" using Cons.prems(1) by auto
    have "refill (replicate k 42 @ drop k (filter isdecimal cs)) cs = Inr (mask_digits k cs)"
      using Cons.IH [of k] Cons.prems False by simp
    then show ?thesis using False nd by simp
  next
    case True
    then have d: "isdigit c" by (rule isdecimal_isdigit)
    show ?thesis
    proof (cases k)
      case 0
      have "refill (replicate 0 42 @ drop 0 (filter isdecimal cs)) cs = Inr (mask_digits 0 cs)"
        using Cons.IH [of 0] Cons.prems by simp
      then show ?thesis using True d 0 by simp
    next
      case (Suc k')
      have "refill (replicate k' 42 @ drop k' (filter isdecimal cs)) cs = Inr (mask_digits k' cs)"
        using Cons.IH [of k'] Cons.prems True Suc by simp
      then show ?thesis using True d Suc by simp
    qed
  qed
qed

lemma mask_phone_agree:
  assumes "\<forall>c\<in>set v. isdigit c \<longrightarrow> isdecimal c"
  shows "mask_phone v =
     Inr (if length (filter isdecimal v) < 4 then replicate (length (filter isdecimal v)) 42
          else mask_digits (length (filter isdecimal v) - 2) v)"
  using refill_mask_digits [OF assms, of "length (filter isdecimal v) - 2"]
  by (simp add: mask_phone_def Let_def)

lemma sanitize_value_detected:
  "sanitize_value fr s (Some (detect_type s)) = sanitize_value fr s None"
  by (simp add: sanitize_value.simps [of fr s])

lemma sequence_map_Inr:
  "(\<And>x. x \<in> set xs \<Longrightarrow> g x = Inr (h x)) \<Longrightarrow> sequence (map g xs) = Inr (map h xs)"
  by (induction xs) auto

lemma sanitize_total_aux:
  "((kind = Some Phone \<longrightarrow> (\<exists>m. mask_phone v = Inr m)) \<longrightarrow>
      (\<exists>k out. sanitize_value fr v kind = Inr (k, out)))"
  "recurse fr t = Inr (map_strings (sanitized fr) t)"
proof (induction fr v kind and fr t rule: sanitize_value_recurse.induct)
  case (1 fr v kind)
  define detected where "detected = (case kind of None \<Rightarrow> detect_type v | Some k \<Rightarrow> k)"
  show ?case
  proof
    assume ph: "kind = Some Phone \<longrightarrow> (\<exists>m. mask_phone v = Inr m)"
    have phone_ok: "detected = Phone \<Longrightarrow> \<exists>m. mask_phone v = Inr m"
    proof -
      assume d: "detected = Phone"
      show "\<exists>m. mask_phone v = Inr m"
      proof (cases kind)
        case None
        with d have "detect_type v = Phone" by (simp add: detected_def)
        then show ?thesis using mask_phone_agree [OF detect_Phone_digits] by blast
      next
        case (Some k)
        with d ph show ?thesis by (simp add: detected_def)
      qed
    qed
    consider (is_email) "detected = Email" | (is_phone) "detected = Phone" | (is_url) "detected = URL"
      | (is_json) "detected = JSON" | (is_env) "detected = Env" | (is_text) "detected = Text"
      by (cases detected) auto
    then show "\<exists>k out. sanitize_value fr v kind = Inr (k, out)"
    proof cases
      case is_email
      then show ?thesis by (simp add: sanitize_value.simps [of fr v] detected_def [symmetric])
    next
      case is_phone
      from phone_ok [OF is_phone]
      obtain m where "mask_phone v = Inr m" by blast
      with is_phone show ?thesis by (simp add: sanitize_value.simps [of fr v] detected_def [symmetric])
    next
      case is_url
      then show ?thesis by (simp add: sanitize_value.simps [of fr v] detected_def [symmetric])
    next
      case is_json
      then show ?thesis
        by (simp add: sanitize_value.simps [of fr v] detected_def [symmetric]
            split: option.splits sum.splits)
    next
      case is_text
      then show ?thesis by (simp add: sanitize_value.simps [of fr v] detected_def [symmetric])
    next
      case is_env
      let ?g = "\<lambda>line. if strip line = [] \<or> startswith (strip line) 35 then Inr line
                 else if 61 \<notin> set line then Inr line
                 else (case sanitize_value fr (strip (env_val line))
                           (Some (detect_type (strip (env_val line)))) of
                      Inl e \<Rightarrow> Inl e
                    | Inr (t, sanitized_val) \<Rightarrow> Inr (env_key line @ [61] @ sanitized_val))"
      let ?h = "\<lambda>line. if strip line = [] \<or> startswith (strip line) 35 then line
                 else if 61 \<notin> set line then line
                 else env_key line @ [61] @ sanitized fr (strip (env_val line))"
      have "\<And>line. line \<in> set (splitlines v) \<Longrightarrow> ?g line = Inr (?h line)"
      proof -
        fix line assume l: "line \<in> set (splitlines v)"
        show "?g line = Inr (?h line)"
        proof (cases "strip line = [] \<or> startswith (strip line) 35 \<or> 61 \<notin> set line")
          case True
          then show ?thesis by auto
        next
          case False
          let ?x = "strip (env_val line)"
          have "(Some (detect_type ?x) = Some Phone \<longrightarrow> (\<exists>m. mask_phone ?x = Inr m)) \<longrightarrow>
                (\<exists>k out. sanitize_value fr ?x (Some (detect_type ?x)) = Inr (k, out))"
            using "1.IH"(2) [of detected line] is_env False l
            by (simp add: detected_def)
          moreover have "detect_type ?x = Phone \<Longrightarrow> \<exists>m. mask_phone ?x = Inr m"
            using mask_phone_agree [OF detect_Phone_digits] by blast
          ultimately obtain k out where
            r: "sanitize_value fr ?x (Some (detect_type ?x)) = Inr (k, out)" by auto
          then have "sanitized fr ?x = out"
            by (simp add: sanitized_def sanitize_value_detected [symmetric])
          with r False show ?thesis by simp
        qed
      qed
      then have "sequence (map ?g (splitlines v)) = Inr (map ?h (splitlines v))"
        by (rule sequence_map_Inr)
      then show ?thesis using is_env
        by (simp add: sanitize_value.simps [of fr v] detected_def [symmetric])
    qed
  qed
next
  case (2 fr ps)
  have "\<And>p. p \<in> set ps \<Longrightarrow>
      (case p of (k, val) \<Rightarrow> case recurse fr val of Inl e \<Rightarrow> Inl e | Inr val' \<Rightarrow> Inr (k, val'))
        = Inr (case p of (k, v) \<Rightarrow> (k, map_strings (sanitized fr) v))"
  proof -
    fix p assume m: "p \<in> set ps"
    obtain k val where p: "p = (k, val)" by (cases p)
    have "recurse fr val = Inr (map_strings (sanitized fr) val)"
      using "2.IH" [of "(k, val)" k val] m [unfolded p] by simp
    then show "(case p of (k, val) \<Rightarrow> case recurse fr val of Inl e \<Rightarrow> Inl e | Inr val' \<Rightarrow> Inr (k, val'))
        = Inr (case p of (k, v) \<Rightarrow> (k, map_strings (sanitized fr) v))"
      by (simp add: p)
  qed
  then have "sequence (map (\<lambda>(k, val). case recurse fr val of Inl e \<Rightarrow> Inl e | Inr val' \<Rightarrow> Inr (k, val')) ps)
      = Inr (map (\<lambda>(k, v). (k, map_strings (sanitized fr) v)) ps)"
    by (rule sequence_map_Inr)
  then show ?case by simp
next
  case (3 fr vs)
  then have "sequence (map (recurse fr) vs) = Inr (map (map_strings (sanitized fr)) vs)"
    by (intro sequence_map_Inr) simp
  then show ?case by simp
next
  case (4 fr leaf)
  have "detect_type leaf = Phone \<Longrightarrow> \<exists>m. mask_phone leaf = Inr m"
    using mask_phone_agree [OF detect_Phone_digits] by blast
  with "4.IH" obtain k out where
    r: "sanitize_value fr leaf (Some (detect_type leaf)) = Inr (k, out)" by auto
  then have "sanitized fr leaf = out"
    by (simp add: sanitized_def sanitize_value_detected [symmetric])
  with r show ?case by simp
qed simp_all

text \<open>
  Claim C6, as the code has it.  When the kind is JSON, by override or by detection, and
  \<^verbatim>\<open>json.loads\<close> refuses the text, the result is of kind Text and its string is the raw
  text after \<^verbatim>\<open>html_escape\<close> alone: \<^verbatim>\<open>escape_sql\<close> is not applied.
\<close>

theorem json_fallback_html_only:
  assumes "(case kind of Some k \<Rightarrow> k | None \<Rightarrow> detect_type v) = JSON" and "json_loads v = None"
  shows "sanitize_value fr v kind = Inr (Text, html_escape v)"
  using assms by (simp add: sanitize_value.simps)

lemma json_loads_quote: "json_loads [39] = None"
  by (simp add: json_loads_def skip_ws_def json_ws_def scan_once.simps scan_atom_def ustr_def
      scan_number_def num_int_def is09_def)

theorem json_fallback_html_only_witness:
  "json_loads [39] = None \<and> sanitize_value id [39] (Some JSON) = Inr (Text, ustr ''&#x27;'')"
  using json_fallback_html_only [where kind = "Some JSON" and v = "[39]" and fr = id] json_loads_quote
  by (simp add: html_escape_def replace_chr_def ustr_def)

text \<open>
  Claim C6, as stated, fails on a single quote (U+0027) sanitized as JSON: the text does
  not parse, the result keeps one entity for the quote, and SQL escaping followed by HTML
  escaping would have given two.
\<close>

theorem json_fallback_counterexample:
  "json_loads [39] = None \<and>
   sanitize_value id [39] (Some JSON) = Inr (Text, ustr ''&#x27;'') \<and>
   html_escape (escape_sql [39]) = ustr ''&#x27;&#x27;'' \<and>
   sanitize_value id [39] (Some JSON) \<noteq> Inr (Text, html_escape (escape_sql [39]))"
  using json_loads_quote
  by (simp add: sanitize_value.simps html_escape_def escape_sql_def replace_chr_def ustr_def)

section \<open>Structured sanitization\<close>

lemmas eval_json = json_loads_def skip_ws_def json_ws_def scan_once.simps scan_pairs.simps
  scan_items.simps scan_atom_def scan_number_def num_int_def num_frac_def num_exp_def is09_def
  dict_of_def Let_def nat_of_digits_def

lemmas eval_detect = detect_type_def startswith_def endswith_def strip_def isspace_def
  fullmatch_def EMAIL_RE_def EMAIL_local_def EMAIL_domain_def PHONE_RE_def URL_RE_def
  rx_seq_def rx_plus_def rx_chr_def rx_opt_def rx_lit_def rx_atleast_def email_cls_def phone_cls_def
  isdecimal_low is_linebreak_def

lemmas eval_sanitize = sanitize_value.simps html_escape_def escape_sql_def replace_chr_def
  mask_email_def EMAIL_groups_at_def mask_part_def env_key_def env_val_def
  json_dumps.simps encode_str_def encode_chr_def

lemma sanitized_result: "\<exists>k. sanitize_value fr s None = Inr (k, sanitized fr s)"
proof -
  from sanitize_total_aux(1) [of None s fr]
  obtain k out where "sanitize_value fr s None = Inr (k, out)" by auto
  then show ?thesis by (auto simp: sanitized_def)
qed

lemma sanitized_result_detected:
  "\<exists>k. sanitize_value fr s (Some (detect_type s)) = Inr (k, sanitized fr s)"
  using sanitized_result [of fr s] by (simp add: sanitize_value_detected)

lemma sanitize_value_env:
  assumes "(case kind of Some k \<Rightarrow> k | None \<Rightarrow> detect_type v) = Env"
  shows "sanitize_value fr v kind =
           Inr (Env, join_with [10] (map (env_line_out fr) (splitlines v)))"
proof -
  let ?g = "\<lambda>line. if strip line = [] \<or> startswith (strip line) 35 then Inr line
             else if 61 \<notin> set line then Inr line
             else (case sanitize_value fr (strip (env_val line))
                       (Some (detect_type (strip (env_val line)))) of
                  Inl e \<Rightarrow> Inl e
                | Inr (t, sanitized_val) \<Rightarrow> Inr (env_key line @ [61] @ sanitized_val))"
  have "\<And>line. ?g line = Inr (env_line_out fr line)"
  proof -
    fix line
    obtain k where "sanitize_value fr (strip (env_val line))
        (Some (detect_type (strip (env_val line)))) = Inr (k, sanitized fr (strip (env_val line)))"
      using sanitized_result_detected by blast
    then show "?g line = Inr (env_line_out fr line)" by (simp add: env_line_out_def)
  qed
  then have "sequence (map ?g (splitlines v)) = Inr (map (env_line_out fr) (splitlines v))"
    by (intro sequence_map_Inr) simp
  then show ?thesis using assms by (simp add: sanitize_value.simps [of fr v])
qed

lemma sanitize_value_json:
  assumes "(case kind of Some k \<Rightarrow> k | None \<Rightarrow> detect_type v) = JSON" and "json_loads v = Some t"
  shows "sanitize_value fr v kind = Inr (JSON, json_dumps fr (map_strings (sanitized fr) t))"
  using assms by (simp add: sanitize_value.simps [of fr v] sanitize_total_aux(2))

lemma ex_ff: "sanitize_value id ([12] @ ustr ''{}'') None = Inr (Text, [12] @ ustr ''{}'')"
  by (simp add: ustr_def eval_sanitize eval_detect eval_json)

lemma ex_ff_detect: "detect_type ([12] @ ustr ''{}'') = JSON"
  by (simp add: ustr_def eval_detect eval_json)

lemma ex_one: "sanitize_value id (ustr ''1'') None = Inr (Text, ustr ''1'')"
  by (simp add: ustr_def eval_sanitize eval_detect eval_json)

lemma ex_email_leaf: "sanitize_value fr (ustr ''user@example.com'') None = Inr (Email, ustr ''u**r@e*****e.c*m'')"
  by (simp add: ustr_def eval_sanitize eval_detect eval_json)

lemma rev_dropWhile_takeWhile:
  "rev (dropWhile P (rev d)) @ rev (takeWhile P (rev d)) = d"
proof -
  have "rev (takeWhile P (rev d) @ dropWhile P (rev d)) = rev (rev d)"
    by (simp only: takeWhile_dropWhile_id)
  then show ?thesis by (simp only: rev_append rev_rev_ident)
qed

lemma strip_decomp:
  "\<exists>a b. s = a @ strip s @ b \<and> (\<forall>c\<in>set a. isspace c) \<and> (\<forall>c\<in>set b. isspace c)"
proof -
  let ?d = "dropWhile isspace s"
  have 1: "s = takeWhile isspace s @ ?d" by simp
  have 2: "?d = strip s @ rev (takeWhile isspace (rev ?d))"
    unfolding strip_def by (rule rev_dropWhile_takeWhile [symmetric])
  have a: "\<forall>c\<in>set (takeWhile isspace s). isspace c" by (auto dest: set_takeWhileD)
  have b: "\<forall>c\<in>set (rev (takeWhile isspace (rev ?d))). isspace c" by (auto dest: set_takeWhileD)
  from 1 2 have "s = takeWhile isspace s @ strip s @ rev (takeWhile isspace (rev ?d))" by metis
  with a b show ?thesis by blast
qed

lemma strip_ends:
  assumes "strip s \<noteq> []"
  shows "\<not> isspace (hd (strip s)) \<and> \<not> isspace (last (strip s))"
proof -
  define d where "d = dropWhile isspace s"
  define e where "e = dropWhile isspace (rev d)"
  have st: "strip s = rev e" by (simp add: strip_def d_def e_def)
  have e: "e \<noteq> []" using assms st by simp
  then have l: "\<not> isspace (hd e)" unfolding e_def by (rule hd_dropWhile)
  have "last (strip s) = hd e" using e st by (simp add: last_rev)
  then have last: "\<not> isspace (last (strip s))" using l by simp
  have dne: "d \<noteq> []"
  proof
    assume "d = []"
    then have "e = []" by (simp add: e_def)
    with e show False by simp
  qed
  then have hd: "\<not> isspace (hd d)" unfolding d_def by (rule hd_dropWhile)
  have "d = strip s @ rev (takeWhile isspace (rev d))"
    unfolding st e_def by (rule rev_dropWhile_takeWhile [symmetric])
  then have "hd d = hd (strip s)" using assms by (metis hd_append2)
  with hd last show ?thesis by simp
qed

lemma env_split:
  assumes "61 \<in> set line"
  shows "line = env_key line @ [61] @ env_val line \<and> 61 \<notin> set (env_key line)"
proof -
  let ?d = "dropWhile (\<lambda>c. c \<noteq> 61) line"
  have ne: "?d \<noteq> []" using assms by (simp add: dropWhile_eq_Nil_conv)
  then have "\<not> (hd ?d \<noteq> 61)" by (rule hd_dropWhile)
  then have "?d = 61 # drop 1 ?d" using ne by (cases ?d) auto
  then have "line = takeWhile (\<lambda>c. c \<noteq> 61) line @ 61 # drop 1 ?d"
    by (metis takeWhile_dropWhile_id)
  moreover have "61 \<notin> set (takeWhile (\<lambda>c. c \<noteq> 61) line)" by (auto dest: set_takeWhileD)
  ultimately show ?thesis by (simp add: env_key_def env_val_def)
qed

text \<open>
  Claim C9.  Form feed (U+000C) followed by \<^verbatim>\<open>{}\<close> is detected as JSON, because
  \<^verbatim>\<open>detect_type\<close> parses the text after \<^verbatim>\<open>strip()\<close>, which removes the form feed.
  \<^verbatim>\<open>sanitize_value\<close> parses the text as it is, \<^verbatim>\<open>json.loads\<close> skips only space, tab,
  newline and carriage return, and so the parse fails: the result is of kind Text and its
  string is the input unchanged, which \<^verbatim>\<open>detect_type\<close> classifies as JSON again.
\<close>

theorem text_fallback_redetected_as_json:
  "sanitize_value id ([12] @ ustr ''{}'') None = Inr (Text, [12] @ ustr ''{}'') \<and>
   detect_type ([12] @ ustr ''{}'') = JSON \<and>
   json_loads ([12] @ ustr ''{}'') = None \<and>
   json_loads (strip ([12] @ ustr ''{}'')) = Some (JObj [])"
  by (simp add: ustr_def eval_sanitize eval_detect eval_json)

text \<open>
  Claim C2, as stated, fails on \<^verbatim>\<open>1\<close>: the text parses as JSON, but it is not delimited
  by braces or brackets, so it is detected and sanitized as Text.
\<close>

theorem json_scalar_counterexample:
  "json_loads (ustr ''1'') = Some (JInt 1) \<and>
   sanitize_value id (ustr ''1'') None = Inr (Text, ustr ''1'')"
  by (simp add: ustr_def eval_sanitize eval_detect eval_json)

lemma dropWhile_hd_id: "s \<noteq> [] \<Longrightarrow> \<not> P (hd s) \<Longrightarrow> dropWhile P s = s"
  by (cases s) auto

lemma strip_idem: "strip (strip s) = strip s"
proof (cases "strip s = []")
  case True
  have "strip [] = []" by (simp add: strip_def)
  with True show ?thesis by simp
next
  case False
  then have e: "\<not> isspace (hd (strip s))" "\<not> isspace (last (strip s))"
    using strip_ends by blast+
  have 1: "dropWhile isspace (strip s) = strip s" using False e(1) by (rule dropWhile_hd_id)
  have "hd (rev (strip s)) = last (strip s)" using False by (simp add: hd_rev)
  then have 2: "dropWhile isspace (rev (strip s)) = rev (strip s)"
    using False e(2) by (intro dropWhile_hd_id) auto
  show ?thesis unfolding strip_def [of "strip s"] by (simp only: 1 2 rev_rev_ident)
qed

lemma detect_type_strip: "detect_type (strip s) = detect_type s"
  by (simp add: detect_type_def strip_idem)

lemma ex_env_detect:
  "detect_type (ustr ''A=1'' @ [10] @ ustr ''# comment'' @ [10] @ ustr ''B=bob@x.com'') = Env"
  by (simp add: ustr_def eval_detect eval_json)

lemma ex_env_lines:
  "splitlines (ustr ''A=1'' @ [10] @ ustr ''# comment'' @ [10] @ ustr ''B=bob@x.com'') =
     [ustr ''A=1'', ustr ''# comment'', ustr ''B=bob@x.com'']"
  by (simp add: ustr_def is_linebreak_def)

lemma ex_one_leaf: "sanitized fr (ustr ''1'') = ustr ''1''"
proof -
  have "sanitize_value fr (ustr ''1'') None = Inr (Text, ustr ''1'')"
    by (simp add: ustr_def eval_sanitize eval_detect eval_json)
  then show ?thesis by (simp add: sanitized_def)
qed

lemma ex_bob_leaf: "sanitized fr (ustr ''bob@x.com'') = ustr ''b*b@x*.c*m''"
proof -
  have "sanitize_value fr (ustr ''bob@x.com'') None = Inr (Email, ustr ''b*b@x*.c*m'')"
    by (simp add: ustr_def eval_sanitize eval_detect eval_json)
  then show ?thesis by (simp add: sanitized_def)
qed

lemma ex_env_out:
  "map (env_line_out fr) [ustr ''A=1'', ustr ''# comment'', ustr ''B=bob@x.com''] =
     [ustr ''A=1'', ustr ''# comment'', ustr ''B=b*b@x*.c*m'']"
proof -
  have a: "env_line_out fr (ustr ''A=1'') = ustr ''A='' @ sanitized fr (ustr ''1'')"
    by (simp add: env_line_out_def ustr_def strip_def isspace_def startswith_def env_key_def env_val_def)
  have b: "env_line_out fr (ustr ''# comment'') = ustr ''# comment''"
    by (simp add: env_line_out_def ustr_def strip_def isspace_def startswith_def)
  have c: "env_line_out fr (ustr ''B=bob@x.com'') = ustr ''B='' @ sanitized fr (ustr ''bob@x.com'')"
    by (simp add: env_line_out_def ustr_def strip_def isspace_def startswith_def env_key_def env_val_def)
  show ?thesis by (simp only: list.map a b c ex_one_leaf ex_bob_leaf) (simp add: ustr_def)
qed

text \<open>
  Claim C3.  Env sanitization is line-local and key-preserving.  Whenever the kind is Env,
  by override or by detection, the result is of kind Env and its string is the lines of
  the input, each rewritten on its own (\<open>env_line_out\<close>) and joined with newline: a blank
  line, a comment line and a line without an equals sign are kept verbatim; any other line
  is split at its first equals sign, the key is written unchanged, and the value is
  written as \<^verbatim>\<open>sanitize_value\<close> returns it for the kind that \<^verbatim>\<open>detect_type\<close> gives the
  value, a call that never raises.  The per-kind rule works on the trimmed value, for
  which \<^verbatim>\<open>detect_type\<close> gives the same kind as for the value itself.  The block
  \<^verbatim>\<open>A=1\<close>, \<^verbatim>\<open># comment\<close>, \<^verbatim>\<open>B=bob@x.com\<close> keeps its comment line and changes only the
  value sides.
\<close>

theorem env_sanitization_line_local:
  "((case kind of Some k \<Rightarrow> k | None \<Rightarrow> detect_type v) = Env \<longrightarrow>
      sanitize_value fr v kind =
        Inr (Env, join_with [10] (map (env_line_out fr) (splitlines v)))) \<and>
   (61 \<in> set line \<longrightarrow> line = env_key line @ [61] @ env_val line \<and> 61 \<notin> set (env_key line)) \<and>
   (\<exists>k. sanitize_value fr (strip x) (Some (detect_type x)) = Inr (k, sanitized fr (strip x))) \<and>
   sanitize_value fr (ustr ''A=1'' @ [10] @ ustr ''# comment'' @ [10] @ ustr ''B=bob@x.com'') None =
     Inr (Env, ustr ''A=1'' @ [10] @ ustr ''# comment'' @ [10] @ ustr ''B=b*b@x*.c*m'')"
proof (intro conjI impI)
  assume "(case kind of Some k \<Rightarrow> k | None \<Rightarrow> detect_type v) = Env"
  then show "sanitize_value fr v kind =
        Inr (Env, join_with [10] (map (env_line_out fr) (splitlines v)))"
    by (rule sanitize_value_env)
next
  assume "61 \<in> set line"
  then show "line = env_key line @ [61] @ env_val line" "61 \<notin> set (env_key line)"
    using env_split by blast+
next
  show "\<exists>k. sanitize_value fr (strip x) (Some (detect_type x)) = Inr (k, sanitized fr (strip x))"
    using sanitized_result_detected [of fr "strip x"] by (simp add: detect_type_strip)
next
  show "sanitize_value fr (ustr ''A=1'' @ [10] @ ustr ''# comment'' @ [10] @ ustr ''B=bob@x.com'') None =
     Inr (Env, ustr ''A=1'' @ [10] @ ustr ''# comment'' @ [10] @ ustr ''B=b*b@x*.c*m'')"
  proof -
    have "sanitize_value fr (ustr ''A=1'' @ [10] @ ustr ''# comment'' @ [10] @ ustr ''B=bob@x.com'') None =
      Inr (Env, join_with [10] (map (env_line_out fr)
        (splitlines (ustr ''A=1'' @ [10] @ ustr ''# comment'' @ [10] @ ustr ''B=bob@x.com''))))"
      by (rule sanitize_value_env) (simp only: option.case ex_env_detect)
    then show ?thesis
      by (simp only: ex_env_lines ex_env_out) (simp add: ustr_def)
  qed
qed

theorem env_sanitization_line_local_witness:
  "(case Some Env of Some k \<Rightarrow> k | None \<Rightarrow> detect_type (ustr ''K =v'' @ [10, 10] @ ustr ''plain'')) = Env \<and>
   61 \<in> set (ustr ''K =v'') \<and>
   ustr ''K =v'' = env_key (ustr ''K =v'') @ [61] @ env_val (ustr ''K =v'') \<and>
   env_key (ustr ''K =v'') = ustr ''K '' \<and>
   sanitize_value id (ustr ''K =v'' @ [10, 10] @ ustr ''plain'') (Some Env) =
     Inr (Env, ustr ''K =v'' @ [10, 10] @ ustr ''plain'')"
proof -
  have d: "(case Some Env of Some k \<Rightarrow> k | None \<Rightarrow> detect_type (ustr ''K =v'' @ [10, 10] @ ustr ''plain'')) = Env"
    by simp
  have m: "61 \<in> set (ustr ''K =v'')" by (simp add: ustr_def)
  have l: "splitlines (ustr ''K =v'' @ [10, 10] @ ustr ''plain'') = [ustr ''K =v'', [], ustr ''plain'']"
    by (simp add: ustr_def is_linebreak_def)
  have "sanitize_value id (ustr ''v'') None = Inr (Text, ustr ''v'')"
    by (simp add: ustr_def eval_sanitize eval_detect eval_json)
  then have v: "sanitized id (ustr ''v'') = ustr ''v''" by (simp add: sanitized_def)
  have o: "map (env_line_out id) [ustr ''K =v'', [], ustr ''plain''] = [ustr ''K =v'', [], ustr ''plain'']"
  proof -
    have "env_line_out id (ustr ''K =v'') = ustr ''K ='' @ sanitized id (ustr ''v'')"
      by (simp add: env_line_out_def ustr_def strip_def isspace_def startswith_def env_key_def env_val_def)
    moreover have "env_line_out id [] = []"
      by (simp add: env_line_out_def strip_def)
    moreover have "env_line_out id (ustr ''plain'') = ustr ''plain''"
      by (simp add: env_line_out_def ustr_def strip_def isspace_def startswith_def)
    ultimately show ?thesis by (simp only: list.map v) (simp add: ustr_def)
  qed
  have k: "env_key (ustr ''K =v'') = ustr ''K ''" by (simp add: env_key_def ustr_def)
  note t = env_sanitization_line_local [where kind = "Some Env" and fr = id and
      v = "ustr ''K =v'' @ [10, 10] @ ustr ''plain''" and line = "ustr ''K =v''"]
  from t d have "sanitize_value id (ustr ''K =v'' @ [10, 10] @ ustr ''plain'') (Some Env) =
      Inr (Env, join_with [10] (map (env_line_out id) (splitlines (ustr ''K =v'' @ [10, 10] @ ustr ''plain''))))"
    by blast
  moreover from t m have s: "ustr ''K =v'' = env_key (ustr ''K =v'') @ [61] @ env_val (ustr ''K =v'')"
    by blast
  ultimately have "sanitize_value id (ustr ''K =v'' @ [10, 10] @ ustr ''plain'') (Some Env) =
     Inr (Env, ustr ''K =v'' @ [10, 10] @ ustr ''plain'')"
    by (simp only: l o) (simp add: ustr_def)
  with d m s k show ?thesis by blast
qed

text \<open>
  Claim C10.  In Env sanitization the value after the first equals sign is trimmed before
  it is detected and sanitized, and the sanitized trimmed value is what the output line
  holds after the unchanged key and the equals sign.  The trimmed value is the value
  without a leading and a trailing run of whitespace, and it neither begins nor ends with
  whitespace; so \<^verbatim>\<open>A=  hello  \<close> becomes \<^verbatim>\<open>A=hello\<close>.
\<close>

theorem env_value_stripped:
  assumes "(case kind of Some k \<Rightarrow> k | None \<Rightarrow> detect_type v) = Env"
    and "i < length (splitlines v)" and "ln = splitlines v ! i"
    and "strip ln \<noteq> []" and "\<not> startswith (strip ln) 35" and "61 \<in> set ln"
  shows "\<exists>outs a b.
     sanitize_value fr v kind = Inr (Env, join_with [10] outs) \<and>
     length outs = length (splitlines v) \<and>
     outs ! i = env_key ln @ [61] @ sanitized fr (strip (env_val ln)) \<and>
     (\<exists>k. sanitize_value fr (strip (env_val ln)) (Some (detect_type (strip (env_val ln)))) =
            Inr (k, sanitized fr (strip (env_val ln)))) \<and>
     env_val ln = a @ strip (env_val ln) @ b \<and>
     (\<forall>c\<in>set a \<union> set b. isspace c) \<and>
     (strip (env_val ln) \<noteq> [] \<longrightarrow>
        \<not> isspace (hd (strip (env_val ln))) \<and> \<not> isspace (last (strip (env_val ln))))"
proof -
  let ?outs = "map (env_line_out fr) (splitlines v)"
  have 1: "sanitize_value fr v kind = Inr (Env, join_with [10] ?outs)"
    using assms(1) by (rule sanitize_value_env)
  have 2: "length ?outs = length (splitlines v)" by simp
  have "?outs ! i = env_line_out fr ln" using assms(2,3) by simp
  then have 3: "?outs ! i = env_key ln @ [61] @ sanitized fr (strip (env_val ln))"
    using assms(4,5,6) by (simp add: env_line_out_def)
  have 4: "\<exists>k. sanitize_value fr (strip (env_val ln)) (Some (detect_type (strip (env_val ln)))) =
            Inr (k, sanitized fr (strip (env_val ln)))"
    by (rule sanitized_result_detected)
  obtain a b where 5: "env_val ln = a @ strip (env_val ln) @ b"
    "\<forall>c\<in>set a. isspace c" "\<forall>c\<in>set b. isspace c"
    using strip_decomp [of "env_val ln"] by blast
  have 6: "strip (env_val ln) \<noteq> [] \<longrightarrow>
        \<not> isspace (hd (strip (env_val ln))) \<and> \<not> isspace (last (strip (env_val ln)))"
    using strip_ends by blast
  from 5 have 7: "\<forall>c\<in>set a \<union> set b. isspace c" by blast
  from 1 2 3 4 5(1) 7 6 show ?thesis by blast
qed

theorem env_value_stripped_witness:
  "detect_type (ustr ''A=  hello  '') = Env \<and>
   splitlines (ustr ''A=  hello  '') = [ustr ''A=  hello  ''] \<and>
   env_key (ustr ''A=  hello  '') = ustr ''A'' \<and>
   env_val (ustr ''A=  hello  '') = ustr ''  hello  '' \<and>
   strip (ustr ''  hello  '') = ustr ''hello'' \<and>
   sanitize_value id (ustr ''A=  hello  '') None = Inr (Env, ustr ''A=hello'')"
proof -
  have d: "detect_type (ustr ''A=  hello  '') = Env"
    by (simp add: ustr_def eval_detect eval_json)
  have l: "splitlines (ustr ''A=  hello  '') = [ustr ''A=  hello  '']"
    by (simp add: ustr_def is_linebreak_def)
  have k: "env_key (ustr ''A=  hello  '') = ustr ''A''"
    by (simp add: env_key_def ustr_def)
  have v: "env_val (ustr ''A=  hello  '') = ustr ''  hello  ''"
    by (simp add: env_val_def ustr_def)
  have s: "strip (ustr ''  hello  '') = ustr ''hello''"
    by (simp add: strip_def isspace_def ustr_def)
  have sl: "strip (ustr ''A=  hello  '') = ustr ''A=  hello''"
    by (simp add: strip_def isspace_def ustr_def)
  have "sanitize_value id (ustr ''hello'') None = Inr (Text, ustr ''hello'')"
    by (simp add: ustr_def eval_sanitize eval_detect eval_json)
  then have h: "sanitized id (ustr ''hello'') = ustr ''hello''" by (simp add: sanitized_def)
  have c1: "(case None of Some k \<Rightarrow> k | None \<Rightarrow> detect_type (ustr ''A=  hello  '')) = Env"
    by (simp only: option.case d)
  have c2: "0 < length (splitlines (ustr ''A=  hello  ''))" by (simp only: l) simp
  have c3: "ustr ''A=  hello  '' = splitlines (ustr ''A=  hello  '') ! 0" by (simp only: l) simp
  have c4: "strip (ustr ''A=  hello  '') \<noteq> []" by (simp only: sl) (simp add: ustr_def)
  have c5: "\<not> startswith (strip (ustr ''A=  hello  '')) 35"
    by (simp only: sl) (simp add: ustr_def startswith_def)
  have c6: "61 \<in> set (ustr ''A=  hello  '')" by (simp add: ustr_def)
  from env_value_stripped [OF c1 c2 c3 c4 c5 c6, of id]
  obtain outs where o: "sanitize_value id (ustr ''A=  hello  '') None = Inr (Env, join_with [10] outs)"
    "length outs = length (splitlines (ustr ''A=  hello  ''))"
    "outs ! 0 = env_key (ustr ''A=  hello  '') @ [61] @
       sanitized id (strip (env_val (ustr ''A=  hello  '')))"
    by blast
  from o(2) have "length outs = 1" by (simp only: l) simp
  then obtain x where x: "outs = [x]" by (cases outs) auto
  from o(3) have "x = ustr ''A'' @ [61] @ ustr ''hello''"
    unfolding x by (simp only: k v s h nth_Cons_0)
  then have "join_with [10] outs = ustr ''A=hello''" by (simp add: x ustr_def)
  with o(1) have "sanitize_value id (ustr ''A=  hello  '') None = Inr (Env, ustr ''A=hello'')"
    by simp
  with d l k v s show ?thesis by blast
qed

text \<open>
  Claim C1.  \<^verbatim>\<open>detect_type\<close> is total, returns one of the six kinds, and decides on the
  trimmed input by first match in this order: JSON shape, Env shape, a full match of the
  email pattern, of the phone pattern, of the URL pattern, and Text otherwise.  A
  delimited text that does not parse has no JSON shape and goes on to the later tests.
\<close>

theorem detect_type_priority:
  "detect_type s \<in> {Email, Phone, URL, JSON, Env, Text} \<and>
   detect_type s =
     (if json_shape (strip s) then JSON
      else if env_shape (strip s) then Env
      else if fullmatch EMAIL_RE (strip s) then Email
      else if fullmatch PHONE_RE (strip s) then Phone
      else if fullmatch URL_RE (strip s) then URL
      else Text)"
proof
  show "detect_type s \<in> {Email, Phone, URL, JSON, Env, Text}" by (cases "detect_type s") auto
next
  let ?v = "strip s"
  let ?lines = "filter (\<lambda>ln. strip ln \<noteq> [] \<and> \<not> startswith (strip ln) 35) (splitlines ?v)"
  have e: "env_shape ?v \<longleftrightarrow> 61 \<in> set ?v \<and> ?lines \<noteq> [] \<and> list_all (\<lambda>ln. 61 \<in> set ln) ?lines"
    by (auto simp: env_shape_def filter_empty_conv list_all_iff)
  have j: "json_shape ?v \<longleftrightarrow>
      ((startswith ?v 123 \<and> endswith ?v 125) \<or> (startswith ?v 91 \<and> endswith ?v 93)) \<and>
      json_loads ?v \<noteq> None"
    by (auto simp: json_shape_def)
  show "detect_type s =
     (if json_shape ?v then JSON
      else if env_shape ?v then Env
      else if fullmatch EMAIL_RE ?v then Email
      else if fullmatch PHONE_RE ?v then Phone
      else if fullmatch URL_RE ?v then URL
      else Text)"
    by (simp only: e j detect_type_def Let_def)
qed

theorem detect_type_priority_witness:
  "detect_type (ustr '' {a=1}'') = Env \<and>
   \<not> json_shape (strip (ustr '' {a=1}'')) \<and> env_shape (strip (ustr '' {a=1}'')) \<and>
   strip (ustr '' {a=1}'') = ustr ''{a=1}'' \<and>
   json_loads (ustr ''{a=1}'') = None \<and>
   splitlines (ustr ''{a=1}'') = [ustr ''{a=1}'']"
proof -
  have d: "detect_type (ustr '' {a=1}'') = Env"
    by (simp add: ustr_def eval_detect eval_json)
  have s: "strip (ustr '' {a=1}'') = ustr ''{a=1}''"
    by (simp add: strip_def isspace_def ustr_def)
  have l: "json_loads (ustr ''{a=1}'') = None"
    by (simp add: ustr_def eval_json)
  have sp: "splitlines (ustr ''{a=1}'') = [ustr ''{a=1}'']"
    by (simp add: ustr_def is_linebreak_def)
  have nj: "\<not> json_shape (strip (ustr '' {a=1}''))"
    by (simp only: s) (simp add: json_shape_def l)
  from detect_type_priority [of "ustr '' {a=1}''"] d nj
  have "env_shape (strip (ustr '' {a=1}''))" by (auto split: if_splits)
  with d nj s l sp show ?thesis by blast
qed

section \<open>Reading back what the JSON encoder wrote\<close>

lemma hexval_hexdigit: "d < 16 \<Longrightarrow> hexval (hexdigit d) = Some d"
  by (auto simp: hexval_def hexdigit_def)

lemma hex4_encoded:
  "c < 32 \<Longrightarrow> hex4 (48 # 48 # hexdigit (c div 16) # hexdigit (c mod 16) # X) = Some c"
proof -
  assume c: "c < 32"
  then have "c div 16 < 16" "c mod 16 < 16" by auto
  then have "hexval (hexdigit (c div 16)) = Some (c div 16)"
    "hexval (hexdigit (c mod 16)) = Some (c mod 16)"
    by (simp_all add: hexval_hexdigit)
  moreover have "hexval 48 = Some 0" by (simp add: hexval_def)
  ultimately show ?thesis by (simp add: hex4_def)
qed

lemma scanstring_encode_chr:
  assumes "scanstring X = Some (t, r)"
  shows "scanstring (encode_chr c @ X) = Some (c # t, r)"
proof -
  consider (q) "c = 34" | (b) "c = 92" | (n) "c = 10" | (cr) "c = 13" | (tab) "c = 9"
    | (bs) "c = 8" | (ff) "c = 12"
    | (ctl) "c < 32" "c \<noteq> 10" "c \<noteq> 13" "c \<noteq> 9" "c \<noteq> 8" "c \<noteq> 12"
    | (plain) "\<not> c < 32" "c \<noteq> 34" "c \<noteq> 92"
    by fastforce
  then show ?thesis
  proof cases
    case q then show ?thesis using assms by (simp add: encode_chr_def backslash_def)
  next
    case b then show ?thesis using assms by (simp add: encode_chr_def backslash_def)
  next
    case n then show ?thesis using assms by (simp add: encode_chr_def backslash_def)
  next
    case cr then show ?thesis using assms by (simp add: encode_chr_def backslash_def)
  next
    case tab then show ?thesis using assms by (simp add: encode_chr_def backslash_def)
  next
    case bs then show ?thesis using assms by (simp add: encode_chr_def backslash_def)
  next
    case ff then show ?thesis using assms by (simp add: encode_chr_def backslash_def)
  next
    case ctl
    then have e: "encode_chr c = [92, 117, 48, 48, hexdigit (c div 16), hexdigit (c mod 16)]"
      by (auto simp: encode_chr_def)
    show ?thesis using assms ctl(1) by (simp add: e hex4_encoded)
  next
    case plain
    then have e: "encode_chr c = [c]" by (auto simp: encode_chr_def)
    show ?thesis using assms plain by (simp add: e)
  qed
qed

lemma scanstring_encoded:
  "scanstring (concat (map encode_chr s) @ 34 # rest) = Some (s, rest)"
proof (induction s)
  case Nil
  show ?case by simp
next
  case (Cons c s)
  have "scanstring (encode_chr c @ (concat (map encode_chr s) @ 34 # rest)) = Some (c # s, rest)"
    using Cons.IH by (rule scanstring_encode_chr)
  then show ?case by simp
qed

lemma dec_digits: "\<forall>c\<in>set (dec n). is09 c"
proof (induction n rule: dec.induct)
  case (1 n)
  show ?case
  proof (cases "n < 10")
    case True
    then show ?thesis by (simp add: dec.simps [of n] is09_def)
  next
    case False
    have "n mod 10 < 10" by simp
    then have "is09 (48 + n mod 10)" by (simp add: is09_def)
    then show ?thesis using False "1.IH" by (simp add: dec.simps [of n])
  qed
qed

lemma dec_nonempty: "dec n \<noteq> []"
  by (simp add: dec.simps [of n])

lemma dec_hd: "0 < n \<Longrightarrow> hd (dec n) \<noteq> 48"
proof (induction n rule: dec.induct)
  case (1 n)
  show ?case
  proof (cases "n < 10")
    case True
    then show ?thesis using "1.prems" by (simp add: dec.simps [of n])
  next
    case False
    then have "0 < n div 10" by simp
    then have "hd (dec (n div 10)) \<noteq> 48" using "1.IH" False by simp
    then show ?thesis using False dec_nonempty [of "n div 10"] by (simp add: dec.simps [of n])
  qed
qed

lemma nat_of_digits_snoc: "nat_of_digits (ds @ [d]) = 10 * nat_of_digits ds + (d - 48)"
  by (simp add: nat_of_digits_def)

lemma nat_of_digits_dec: "nat_of_digits (dec n) = n"
proof (induction n rule: dec.induct)
  case (1 n)
  show ?case
  proof (cases "n < 10")
    case True
    then show ?thesis by (simp add: dec.simps [of n] nat_of_digits_def)
  next
    case False
    then show ?thesis using "1.IH" by (simp add: dec.simps [of n] nat_of_digits_snoc)
  qed
qed

lemma safe_rest_not_digit: "safe_rest r \<Longrightarrow> takeWhile is09 r = []"
  by (cases r) (auto simp: safe_rest_def is09_def)

lemma takeWhile_digits_rest:
  "\<forall>c\<in>set ds. is09 c \<Longrightarrow> safe_rest r \<Longrightarrow> takeWhile is09 (ds @ r) = ds"
  by (simp add: takeWhile_append2 safe_rest_not_digit)

lemma num_int_dec: "safe_rest r \<Longrightarrow> num_int (dec n @ r) = dec n"
proof (cases "n = 0")
  case True
  assume "safe_rest r"
  have "dec 0 = [48]" by (simp add: dec.simps [of 0])
  then show ?thesis using True by (simp add: num_int_def)
next
  case False
  assume r: "safe_rest r"
  obtain c cs where d: "dec n = c # cs" using dec_nonempty [of n] by (cases "dec n") auto
  have "c \<noteq> 48" using dec_hd [of n] False d by simp
  then have "take 1 (dec n @ r) \<noteq> [48]" using d by simp
  then show ?thesis using takeWhile_digits_rest [OF dec_digits r, of n] by (simp add: num_int_def)
qed

lemma num_frac_safe: "safe_rest r \<Longrightarrow> num_frac r = []"
  by (cases r) (auto simp: num_frac_def safe_rest_def)

lemma num_exp_safe: "safe_rest r \<Longrightarrow> num_exp r = []"
  by (cases r) (auto simp: num_exp_def safe_rest_def)

lemma scan_number_nat:
  assumes "safe_rest r"
  shows "scan_number (dec n @ r) = Some (JInt (int n), r)"
proof -
  obtain c cs where d: "dec n = c # cs" using dec_nonempty [of n] by (cases "dec n") auto
  have c: "is09 c" using dec_digits [of n] d by simp
  then have s: "take 1 (dec n @ r) \<noteq> [45]" using d by (auto simp: is09_def)
  show ?thesis
    unfolding scan_number_def Let_def
    using s assms by (simp add: num_int_dec num_frac_safe num_exp_safe dec_nonempty nat_of_digits_dec)
qed

lemma scan_number_neg:
  assumes "safe_rest r"
  shows "scan_number (45 # dec n @ r) = Some (JInt (- int n), r)"
  unfolding scan_number_def Let_def
  using assms by (simp add: num_int_dec num_frac_safe num_exp_safe dec_nonempty nat_of_digits_dec)

lemma scan_atom_int:
  assumes "safe_rest r"
  shows "scan_atom (str_int i @ r) = Some (JInt i, r)"
proof (cases "i < 0")
  case True
  have "scan_number (45 # dec (nat (- i)) @ r) = Some (JInt (- int (nat (- i))), r)"
    using assms by (rule scan_number_neg)
  then show ?thesis using True by (simp add: scan_atom_def str_int_def ustr_def)
next
  case False
  obtain c cs where d: "dec (nat i) = c # cs"
    using dec_nonempty [of "nat i"] by (cases "dec (nat i)") auto
  have c: "is09 c" using dec_digits [of "nat i"] d by simp
  have "scan_number (dec (nat i) @ r) = Some (JInt (int (nat i)), r)"
    using assms by (rule scan_number_nat)
  then show ?thesis using False c d by (auto simp: scan_atom_def str_int_def ustr_def is09_def)
qed

lemma scan_atom_null: "scan_atom (ustr ''null'' @ r) = Some (JNull, r)"
  by (simp add: scan_atom_def ustr_def)

lemma scan_atom_true: "scan_atom (ustr ''true'' @ r) = Some (JBool True, r)"
  by (simp add: scan_atom_def ustr_def)

lemma scan_atom_false: "scan_atom (ustr ''false'' @ r) = Some (JBool False, r)"
  by (simp add: scan_atom_def ustr_def)

lemma skip_ws_id: "\<not> json_ws c \<Longrightarrow> skip_ws (c # cs) = c # cs"
  by (simp add: skip_ws_def)

lemma skip_ws_space: "skip_ws (32 # cs) = skip_ws cs"
  by (simp add: skip_ws_def json_ws_def)

lemma num_int_head: "num_int s \<noteq> [] \<Longrightarrow> \<exists>c cs. s = c # cs \<and> is09 c"
  by (cases s) (auto simp: num_int_def is09_def split: if_splits)

lemma scan_number_head:
  assumes "scan_number s = Some x"
  shows "\<exists>c cs. s = c # cs \<and> (c = 45 \<or> is09 c)"
proof (cases "take 1 s = [45]")
  case True
  then show ?thesis by (cases s) auto
next
  case False
  then have "num_int s \<noteq> []"
    using assms by (auto simp: scan_number_def Let_def split: if_splits)
  then show ?thesis using num_int_head by blast
qed

lemma scan_atom_head:
  assumes "scan_atom s = Some x"
  shows "\<exists>c cs. s = c # cs \<and> \<not> json_ws c \<and> c \<noteq> 93 \<and> c \<noteq> 125 \<and> c \<noteq> 44 \<and> c \<noteq> 58"
proof (cases "scan_number s")
  case (Some y)
  then obtain c cs where "s = c # cs" "c = 45 \<or> is09 c" using scan_number_head by blast
  then show ?thesis by (auto simp: json_ws_def is09_def)
next
  case None
  then have "take 4 s = ustr ''null'' \<or> take 4 s = ustr ''true'' \<or> take 5 s = ustr ''false''
     \<or> take 3 s = ustr ''NaN'' \<or> take 8 s = ustr ''Infinity'' \<or> take 9 s = ustr ''-Infinity''"
    using assms by (auto simp: scan_atom_def split: if_splits)
  then show ?thesis by (cases s) (auto simp: ustr_def json_ws_def)
qed

lemma scan_once_head:
  assumes "scan_once s = Some x"
  shows "\<exists>c cs. s = c # cs \<and> \<not> json_ws c \<and> c \<noteq> 93 \<and> c \<noteq> 125 \<and> c \<noteq> 44 \<and> c \<noteq> 58"
proof -
  from assms obtain c cs where s: "s = c # cs" by (cases s) (auto simp: scan_once.simps)
  show ?thesis
  proof (cases "c = 34 \<or> c = 123 \<or> c = 91")
    case True
    then show ?thesis using s by (auto simp: json_ws_def)
  next
    case False
    then have "scan_atom s = Some x" using assms s by (simp add: scan_once.simps [of s])
    then show ?thesis by (rule scan_atom_head)
  qed
qed

lemma scan_once_skip:
  assumes "scan_once s = Some x"
  shows "skip_ws s = s" and "skip_ws (32 # s) = s"
proof -
  from scan_once_head [OF assms] obtain c cs where "s = c # cs" "\<not> json_ws c" by blast
  then show "skip_ws s = s" by (simp add: skip_ws_id)
  then show "skip_ws (32 # s) = s" by (simp add: skip_ws_space)
qed

lemma dict_set_fresh: "k \<notin> fst ` set d \<Longrightarrow> dict_set k v d = d @ [(k, v)]"
  by (induction d) auto

lemma dict_fold_distinct:
  "distinct (map fst (d @ ps)) \<Longrightarrow> foldl (\<lambda>d (k, v). dict_set k v d) d ps = d @ ps"
proof (induction ps arbitrary: d)
  case Nil
  then show ?case by simp
next
  case (Cons p ps)
  obtain k v where p: "p = (k, v)" by (cases p)
  have "k \<notin> fst ` set d" using Cons.prems p by auto
  then have "dict_set k v d = d @ [(k, v)]" by (rule dict_set_fresh)
  moreover have "distinct (map fst ((d @ [(k, v)]) @ ps))" using Cons.prems p by simp
  ultimately show ?case using Cons.IH [of "d @ [(k, v)]"] p by simp
qed

lemma dict_of_distinct: "distinct (map fst ps) \<Longrightarrow> dict_of ps = ps"
  using dict_fold_distinct [of "[]" ps] by (simp add: dict_of_def)

lemma join_with_Cons:
  "join_with sep (p # ps) = p @ (if ps = [] then [] else sep @ join_with sep ps)"
  by (cases ps) auto

declare scan_once.simps [simp del] scan_items.simps [simp del] scan_pairs.simps [simp del]

lemma safe_rest_simps:
  "safe_rest (44 # r)" "safe_rest (93 # r)" "safe_rest (125 # r)" "safe_rest []"
  by (simp_all add: safe_rest_def)

lemma scan_items_printed:
  assumes "\<And>v r. v \<in> set vs \<Longrightarrow> safe_rest r \<Longrightarrow> scan_once (D v @ r) = Some (F v, r)"
    and "vs \<noteq> []"
  shows "scan_items (join_with [44, 32] (map D vs) @ 93 # rest) = Some (map F vs, rest)"
  using assms
proof (induction vs)
  case Nil
  then show ?case by simp
next
  case (Cons v vs)
  show ?case
  proof (cases "vs = []")
    case True
    have 1: "scan_once (D v @ 93 # rest) = Some (F v, 93 # rest)"
      using Cons.prems(1) [of v "93 # rest"] by (simp add: safe_rest_simps)
    have 2: "skip_ws (93 # rest) = 93 # rest" by (simp add: skip_ws_id json_ws_def)
    show ?thesis using True by (simp add: scan_items.simps [of "D v @ 93 # rest"] 1 2)
  next
    case False
    let ?J = "join_with [44, 32] (map D vs) @ 93 # rest"
    let ?s = "D v @ 44 # 32 # ?J"
    have s: "join_with [44, 32] (map D (v # vs)) @ 93 # rest = ?s"
      using False by (simp add: join_with_Cons)
    have 1: "scan_once ?s = Some (F v, 44 # 32 # ?J)"
      using Cons.prems(1) [of v "44 # 32 # ?J"] by (simp add: safe_rest_simps)
    have 2: "skip_ws (44 # 32 # ?J) = 44 # 32 # ?J" by (simp add: skip_ws_id json_ws_def)
    have ih: "scan_items ?J = Some (map F vs, rest)"
      using Cons.IH Cons.prems(1) False by simp
    obtain w ws where vs: "vs = w # ws" using False by (cases vs) auto
    have "?J = D w @ ((if ws = [] then [] else [44, 32] @ join_with [44, 32] (map D ws)) @ 93 # rest)"
      by (simp add: vs join_with_Cons)
    moreover have "\<exists>x. scan_once ?J = Some x"
      using ih by (auto simp: scan_items.simps [of ?J] split: option.splits)
    ultimately have 3: "skip_ws (32 # ?J) = ?J" using scan_once_skip(2) by blast
    have g: "length (32 # ?J) < length ?s" by simp
    show ?thesis
      unfolding s
      by (subst scan_items.simps) (simp add: 1 2 3 ih del: append.simps join_with.simps)
  qed
qed

lemma scan_pairs_printed:
  assumes "\<And>k v r. (k, v) \<in> set ps \<Longrightarrow> safe_rest r \<Longrightarrow> scan_once (D v @ r) = Some (F v, r)"
    and "ps \<noteq> []"
  shows "scan_pairs (join_with [44, 32] (map (\<lambda>(k, v). encode_str k @ [58, 32] @ D v) ps) @ 125 # rest)
           = Some (map (\<lambda>(k, v). (k, F v)) ps, rest)"
  using assms
proof (induction ps)
  case Nil
  then show ?case by simp
next
  case (Cons p ps)
  obtain k v where p: "p = (k, v)" by (cases p)
  let ?E = "\<lambda>(k, v). encode_str k @ [58, 32] @ D v"
  show ?case
  proof (cases "ps = []")
    case True
    let ?s = "34 # concat (map encode_chr k) @ 34 # 58 # 32 # D v @ 125 # rest"
    have s: "join_with [44, 32] (map ?E (p # ps)) @ 125 # rest = ?s"
      using True p by (simp add: encode_str_def)
    have 1: "scanstring (concat (map encode_chr k) @ 34 # 58 # 32 # D v @ 125 # rest)
               = Some (k, 58 # 32 # D v @ 125 # rest)"
      by (rule scanstring_encoded)
    have 2: "skip_ws (58 # 32 # D v @ 125 # rest) = 58 # 32 # D v @ 125 # rest"
      by (simp add: skip_ws_id json_ws_def)
    have 3: "scan_once (D v @ 125 # rest) = Some (F v, 125 # rest)"
      using Cons.prems(1) [of k v "125 # rest"] p by (simp add: safe_rest_simps)
    then have 4: "skip_ws (32 # D v @ 125 # rest) = D v @ 125 # rest"
      using scan_once_skip(2) by blast
    have 5: "skip_ws (125 # rest) = 125 # rest" by (simp add: skip_ws_id json_ws_def)
    show ?thesis
      unfolding s
      by (subst scan_pairs.simps) (simp add: 1 2 3 4 5 True p del: append.simps join_with.simps)
  next
    case False
    let ?J = "join_with [44, 32] (map ?E ps) @ 125 # rest"
    let ?s = "34 # concat (map encode_chr k) @ 34 # 58 # 32 # D v @ 44 # 32 # ?J"
    have s: "join_with [44, 32] (map ?E (p # ps)) @ 125 # rest = ?s"
      using False p by (simp add: encode_str_def join_with_Cons)
    have 1: "scanstring (concat (map encode_chr k) @ 34 # 58 # 32 # D v @ 44 # 32 # ?J)
               = Some (k, 58 # 32 # D v @ 44 # 32 # ?J)"
      by (rule scanstring_encoded)
    have 2: "skip_ws (58 # 32 # D v @ 44 # 32 # ?J) = 58 # 32 # D v @ 44 # 32 # ?J"
      by (simp add: skip_ws_id json_ws_def)
    have 3: "scan_once (D v @ 44 # 32 # ?J) = Some (F v, 44 # 32 # ?J)"
      using Cons.prems(1) [of k v "44 # 32 # ?J"] p by (simp add: safe_rest_simps)
    then have 4: "skip_ws (32 # D v @ 44 # 32 # ?J) = D v @ 44 # 32 # ?J"
      using scan_once_skip(2) by blast
    have 5: "skip_ws (44 # 32 # ?J) = 44 # 32 # ?J" by (simp add: skip_ws_id json_ws_def)
    have ih: "scan_pairs ?J = Some (map (\<lambda>(k, v). (k, F v)) ps, rest)"
    proof (rule Cons.IH [OF _ False])
      fix k v r assume "(k, v) \<in> set ps" "safe_rest r"
      then show "scan_once (D v @ r) = Some (F v, r)" using Cons.prems(1) [of k v r] by simp
    qed
    obtain q qs where ps: "ps = q # qs" using False by (cases ps) auto
    obtain k' v' where q: "q = (k', v')" by (cases q)
    have "\<exists>X. ?J = 34 # X" by (simp add: ps q join_with_Cons encode_str_def)
    then have 6: "skip_ws (32 # ?J) = ?J"
      by (auto simp: skip_ws_space skip_ws_id json_ws_def)
    show ?thesis
      unfolding s
      by (subst scan_pairs.simps) (simp add: 1 2 3 4 5 6 ih p del: append.simps join_with.simps)
  qed
qed

lemma json_dumps_roundtrip:
  assumes "float_ok fr"
  shows "distinct_keys t \<Longrightarrow> safe_rest r \<Longrightarrow>
         scan_once (json_dumps fr t @ r) = Some (map_floats fr t, r)"
proof (induction t arbitrary: r)
  case JNull
  have "scan_atom (ustr ''null'' @ r) = Some (JNull, r)" by (rule scan_atom_null)
  then show ?case by (simp add: scan_once.simps [of "ustr ''null'' @ r"]) (simp add: ustr_def)
next
  case (JBool b)
  have "scan_atom (ustr ''true'' @ r) = Some (JBool True, r)" by (rule scan_atom_true)
  then have t: "scan_once (ustr ''true'' @ r) = Some (JBool True, r)"
    by (simp add: scan_once.simps [of "ustr ''true'' @ r"]) (simp add: ustr_def)
  have "scan_atom (ustr ''false'' @ r) = Some (JBool False, r)" by (rule scan_atom_false)
  then have f: "scan_once (ustr ''false'' @ r) = Some (JBool False, r)"
    by (simp add: scan_once.simps [of "ustr ''false'' @ r"]) (simp add: ustr_def)
  show ?case using t f by simp
next
  case (JInt i)
  have a: "scan_atom (str_int i @ r) = Some (JInt i, r)" using JInt.prems(2) by (rule scan_atom_int)
  obtain c cs where s: "str_int i @ r = c # cs" "c = 45 \<or> is09 c"
  proof (cases "i < 0")
    case True
    then show ?thesis using that by (simp add: str_int_def)
  next
    case False
    obtain d ds where d: "dec (nat i) = d # ds"
      using dec_nonempty [of "nat i"] by (cases "dec (nat i)") auto
    then have "is09 d" using dec_digits [of "nat i"] by simp
    then show ?thesis using that False d by (simp add: str_int_def)
  qed
  then have n: "c \<noteq> 34" "c \<noteq> 123" "c \<noteq> 91" by (auto simp: is09_def)
  from a s(1) have "scan_atom (c # cs) = Some (JInt i, r)" by simp
  then have "scan_once (c # cs) = Some (JInt i, r)"
    using n by (simp add: scan_once.simps [of "c # cs"])
  then show ?case using s(1) by simp
next
  case (JFloat l)
  then show ?case using assms by (simp add: float_ok_def)
next
  case (JStr s)
  have "scanstring (concat (map encode_chr s) @ 34 # r) = Some (s, r)" by (rule scanstring_encoded)
  then show ?case
    by (simp add: encode_str_def scan_once.simps [of "34 # concat (map encode_chr s) @ 34 # r"])
next
  case (JArr vs)
  show ?case
  proof (cases "vs = []")
    case True
    have "skip_ws (93 # r) = 93 # r" by (simp add: skip_ws_id json_ws_def)
    then show ?thesis using True by (simp add: scan_once.simps [of "91 # 93 # r"])
  next
    case False
    let ?J = "join_with [44, 32] (map (json_dumps fr) vs) @ 93 # r"
    have it: "scan_items ?J = Some (map (map_floats fr) vs, r)"
    proof (rule scan_items_printed [OF _ False])
      fix v r' assume "v \<in> set vs" "safe_rest r'"
      then show "scan_once (json_dumps fr v @ r') = Some (map_floats fr v, r')"
        using JArr.IH [of v r'] JArr.prems(1) by simp
    qed
    then have "\<exists>x. scan_once ?J = Some x"
      by (auto simp: scan_items.simps [of ?J] split: option.splits)
    then obtain c cs where J: "?J = c # cs" "\<not> json_ws c" "c \<noteq> 93"
      using scan_once_head by blast
    have it': "scan_items (c # cs) = Some (map (map_floats fr) vs, r)" using it J(1) by simp
    have "scan_once (91 # c # cs) = Some (JArr (map (map_floats fr) vs), r)"
      using it' J(2,3) by (simp add: scan_once.simps [of "91 # c # cs"] skip_ws_id)
    then show ?thesis using J(1) by simp
  qed
next
  case (JObj ps)
  show ?case
  proof (cases "ps = []")
    case True
    have "skip_ws (125 # r) = 125 # r" by (simp add: skip_ws_id json_ws_def)
    then show ?thesis using True by (simp add: scan_once.simps [of "123 # 125 # r"])
  next
    case False
    let ?E = "\<lambda>(k, v). encode_str k @ [58, 32] @ json_dumps fr v"
    let ?J = "join_with [44, 32] (map ?E ps) @ 125 # r"
    let ?ps' = "map (\<lambda>(k, v). (k, map_floats fr v)) ps"
    have pr: "scan_pairs ?J = Some (?ps', r)"
    proof (rule scan_pairs_printed [OF _ False])
      fix k v r' assume m: "(k, v) \<in> set ps" and "safe_rest r'"
      moreover have "distinct_keys v" using JObj.prems(1) m by auto
      moreover have "v \<in> Basic_BNFs.snds (k, v)" by simp
      ultimately show "scan_once (json_dumps fr v @ r') = Some (map_floats fr v, r')"
        using JObj.IH [of "(k, v)" v r'] by simp
    qed
    obtain q qs where ps: "ps = q # qs" using False by (cases ps) auto
    obtain k' v' where q: "q = (k', v')" by (cases q)
    obtain X where J: "?J = 34 # X" by (simp add: ps q join_with_Cons encode_str_def)
    have sk: "skip_ws (34 # X) = 34 # X" by (simp add: skip_ws_id json_ws_def)
    have mf: "map fst ?ps' = map fst ps" by (induction ps) auto
    have "distinct (map fst ps)" using JObj.prems(1) by simp
    then have "distinct (map fst ?ps')" by (simp only: mf)
    then have d: "dict_of ?ps' = ?ps'" by (rule dict_of_distinct)
    have "scan_pairs (34 # X) = Some (?ps', r)" using pr by (simp only: J)
    then have "scan_once (123 # 34 # X) = Some (JObj ?ps', r)"
      by (simp add: scan_once.simps [of "123 # 34 # X"] sk d)
    then show ?thesis using J by simp
  qed
qed

lemma dict_set_keys: "fst ` set (dict_set k v d) = insert k (fst ` set d)"
proof (induction d)
  case Nil
  show ?case by simp
next
  case (Cons p d)
  obtain k' v' where p: "p = (k', v')" by (cases p)
  show ?case
  proof (cases "k = k'")
    case True
    then show ?thesis by (simp add: p)
  next
    case False
    then show ?thesis using Cons.IH by (simp add: p insert_commute)
  qed
qed

lemma dict_set_distinct: "distinct (map fst d) \<Longrightarrow> distinct (map fst (dict_set k v d))"
proof (induction d)
  case Nil
  then show ?case by simp
next
  case (Cons p d)
  obtain k' v' where p: "p = (k', v')" by (cases p)
  show ?case
  proof (cases "k = k'")
    case True
    then show ?thesis using Cons.prems p by simp
  next
    case False
    have "k' \<notin> fst ` set (dict_set k v d)" using Cons.prems p False by (simp add: dict_set_keys)
    then show ?thesis using Cons p False by simp
  qed
qed

lemma dict_set_values: "snd ` set (dict_set k v d) \<subseteq> insert v (snd ` set d)"
proof (induction d)
  case Nil
  show ?case by simp
next
  case (Cons p d)
  obtain k' v' where p: "p = (k', v')" by (cases p)
  show ?case
  proof (cases "k = k'")
    case True
    then show ?thesis by (auto simp: p)
  next
    case False
    then show ?thesis using Cons.IH by (auto simp: p)
  qed
qed

lemma dict_fold_props:
  "distinct (map fst d) \<Longrightarrow>
     distinct (map fst (foldl (\<lambda>d (k, v). dict_set k v d) d ps)) \<and>
     snd ` set (foldl (\<lambda>d (k, v). dict_set k v d) d ps) \<subseteq> snd ` set d \<union> snd ` set ps"
proof (induction ps arbitrary: d)
  case Nil
  then show ?case by simp
next
  case (Cons p ps)
  obtain k v where p: "p = (k, v)" by (cases p)
  let ?d = "dict_set k v d"
  let ?r = "foldl (\<lambda>d (k, v). dict_set k v d) ?d ps"
  have "distinct (map fst ?d)" using Cons.prems by (rule dict_set_distinct)
  from Cons.IH [OF this]
  have 1: "distinct (map fst ?r)" and 2: "snd ` set ?r \<subseteq> snd ` set ?d \<union> snd ` set ps"
    by blast+
  have 3: "snd ` set ?d \<subseteq> insert v (snd ` set d)" by (rule dict_set_values)
  have "snd ` set ?r \<subseteq> snd ` set d \<union> snd ` set (p # ps)"
  proof
    fix x assume "x \<in> snd ` set ?r"
    with 2 have "x \<in> snd ` set ?d \<or> x \<in> snd ` set ps" by blast
    with 3 have "x = v \<or> x \<in> snd ` set d \<or> x \<in> snd ` set ps" by blast
    then show "x \<in> snd ` set d \<union> snd ` set (p # ps)" by (auto simp: p)
  qed
  with 1 show ?case by (simp add: p)
qed

lemma dict_of_props:
  "distinct (map fst (dict_of ps))" "snd ` set (dict_of ps) \<subseteq> snd ` set ps"
  using dict_fold_props [of "[]" ps] by (simp_all add: dict_of_def)

lemma scan_distinct_keys:
  "(\<forall>t r. scan_once s = Some (t, r) \<longrightarrow> distinct_keys t)"
  "(\<forall>vs r. scan_items s1 = Some (vs, r) \<longrightarrow> (\<forall>v\<in>set vs. distinct_keys v))"
  "(\<forall>ps r. scan_pairs s2 = Some (ps, r) \<longrightarrow> (\<forall>v\<in>snd ` set ps. distinct_keys v))"
proof (induction s and s1 and s2 rule: scan_once_scan_items_scan_pairs.induct)
  case (1 s)
  show ?case
  proof (intro allI impI)
    fix t r assume a: "scan_once s = Some (t, r)"
    then obtain c cs where s: "s = c # cs" by (cases s) (auto simp: scan_once.simps)
    note a' = a [unfolded s, unfolded scan_once.simps [of "c # cs"], simplified]
    consider (str) "c = 34" | (obj) "c \<noteq> 34" "c = 123" | (arr) "c \<noteq> 34" "c \<noteq> 123" "c = 91"
      | (atom) "c \<noteq> 34" "c \<noteq> 123" "c \<noteq> 91" by blast
    then show "distinct_keys t"
    proof cases
      case str
      with a' show ?thesis by auto
    next
      case obj
      from a' obj obtain d r0 where sk: "skip_ws cs = d # r0"
        by (cases "skip_ws cs") auto
      show ?thesis
      proof (cases "d = 125")
        case True
        with a' obj sk show ?thesis by auto
      next
        case False
        with a' obj sk obtain ps where ps: "scan_pairs (d # r0) = Some (ps, r)" "t = JObj (dict_of ps)"
          by auto
        from "1.IH"(1) [OF s obj(1) obj(2) sk False] ps(1)
        have "\<forall>v\<in>snd ` set ps. distinct_keys v" by blast
        then have "\<forall>v\<in>snd ` set (dict_of ps). distinct_keys v" using dict_of_props(2) by blast
        then show ?thesis using ps(2) dict_of_props(1) [of ps] by auto
      qed
    next
      case arr
      from a' arr obtain d r0 where sk: "skip_ws cs = d # r0"
        by (cases "skip_ws cs") auto
      show ?thesis
      proof (cases "d = 93")
        case True
        with a' arr sk show ?thesis by auto
      next
        case False
        with a' arr sk obtain vs where vs: "scan_items (d # r0) = Some (vs, r)" "t = JArr vs"
          by auto
        from "1.IH"(2) [OF s arr(1) arr(2) arr(3) sk False] vs(1)
        show ?thesis using vs(2) by auto
      qed
    next
      case atom
      with a' have "scan_atom (c # cs) = Some (t, r)" by simp
      then have "weight t = 1" using scan_atom_length by blast
      then show ?thesis by (cases t) auto
    qed
  qed
next
  case (2 s)
  show ?case
  proof (intro allI impI)
    fix vs r assume a: "scan_items s = Some (vs, r)"
    note a' = a [unfolded scan_items.simps [of s]]
    from a' obtain v r0 where v: "scan_once s = Some (v, r0)" by (cases "scan_once s") auto
    from "2.IH"(1) v have b: "distinct_keys v" by blast
    from a' v obtain d r' where sk: "skip_ws r0 = d # r'" by (cases "skip_ws r0") auto
    show "\<forall>v\<in>set vs. distinct_keys v"
    proof (cases "d = 93")
      case True
      with a' v sk have "vs = [v]" by auto
      then show ?thesis using b by simp
    next
      case False
      with a' v sk have g: "d = 44 \<and> length r' < length s" by (auto split: if_splits)
      with a' v sk False obtain vs' where vs': "scan_items (skip_ws r') = Some (vs', r)" "vs = v # vs'"
        by auto
      from "2.IH"(2) [OF v refl sk False g] vs'(1)
      show ?thesis using vs'(2) b by auto
    qed
  qed
next
  case (3 s)
  show ?case
  proof (intro allI impI)
    fix ps r assume a: "scan_pairs s = Some (ps, r)"
    then obtain c cs where s: "s = c # cs" by (cases s) (auto simp: scan_pairs.simps)
    note a' = a [unfolded s, unfolded scan_pairs.simps [of "c # cs"], simplified]
    from a' have c: "\<not> c \<noteq> 34" by (auto split: if_splits)
    from a' c obtain k r0 where k: "scanstring cs = Some (k, r0)"
      by (cases "scanstring cs") auto
    from a' c k obtain d r1 where sk: "skip_ws r0 = d # r1" by (cases "skip_ws r0") auto
    from a' c k sk have g: "\<not> (d \<noteq> 58 \<or> \<not> length r1 < length s)" by (auto simp: s split: if_splits)
    from a' c k sk g obtain v r2 where v: "scan_once (skip_ws r1) = Some (v, r2)"
      by (cases "scan_once (skip_ws r1)") (auto simp: s)
    from "3.IH"(1) [OF s c k refl sk g] v
    have b: "distinct_keys v" by blast
    from a' c k sk g v obtain e r3 where sk2: "skip_ws r2 = e # r3"
      by (cases "skip_ws r2") (auto simp: s)
    show "\<forall>v\<in>snd ` set ps. distinct_keys v"
    proof (cases "e = 125")
      case True
      with a' c k sk g v sk2 have "ps = [(k, v)]" by (auto simp: s)
      then show ?thesis using b by simp
    next
      case False
      with a' c k sk g v sk2 have g2: "e = 44 \<and> length r3 < length s" by (auto simp: s split: if_splits)
      with a' c k sk g v sk2 False obtain ps' where
        ps': "scan_pairs (skip_ws r3) = Some (ps', r)" "ps = (k, v) # ps'"
        by (auto simp: s)
      from "3.IH"(2) [OF s c k refl sk g v refl sk2 False g2] ps'(1)
      show ?thesis using ps'(2) b by auto
    qed
  qed
qed

lemma json_loads_distinct_keys: "json_loads v = Some t \<Longrightarrow> distinct_keys t"
proof -
  assume "json_loads v = Some t"
  then obtain r where "scan_once (skip_ws v) = Some (t, r)"
    by (auto simp: json_loads_def split: option.splits if_splits)
  with scan_distinct_keys(1) [of "skip_ws v"] show ?thesis by blast
qed

lemma map_strings_distinct_keys: "distinct_keys t \<Longrightarrow> distinct_keys (map_strings f t)"
proof (induction t)
  case (JObj ps)
  have "map fst (map (\<lambda>(k, v). (k, map_strings f v)) ps) = map fst ps" by (induction ps) auto
  moreover have "\<forall>(k, v)\<in>set ps. distinct_keys (map_strings f v)"
    using JObj by fastforce
  ultimately show ?case using JObj.prems by (auto simp del: map_map)
qed auto

lemma json_loads_dumps:
  assumes "float_ok fr" and "distinct_keys t"
  shows "json_loads (json_dumps fr t) = Some (map_floats fr t)"
proof -
  have 1: "scan_once (json_dumps fr t @ []) = Some (map_floats fr t, [])"
    using assms by (intro json_dumps_roundtrip) (simp_all add: safe_rest_simps)
  then have "skip_ws (json_dumps fr t) = json_dumps fr t" using scan_once_skip(1) by fastforce
  then show ?thesis using 1 by (simp add: json_loads_def skip_ws_def)
qed

lemma float_ok_const: "float_ok (\<lambda>l. ustr ''2.5'')"
proof -
  have "\<And>r. safe_rest r \<Longrightarrow> scan_once (ustr ''2.5'' @ r) = Some (JFloat (ustr ''2.5''), r)"
  proof -
    fix r assume r: "safe_rest r"
    have t: "takeWhile is09 r = []" using r by (rule safe_rest_not_digit)
    have e: "num_exp r = []" using r by (rule num_exp_safe)
    have "scan_number (50 # 46 # 53 # r) = Some (JFloat [50, 46, 53], r)"
      by (simp add: scan_number_def Let_def num_int_def num_frac_def is09_def t e)
    then have "scan_atom (50 # 46 # 53 # r) = Some (JFloat [50, 46, 53], r)"
      by (simp add: scan_atom_def ustr_def)
    then show "scan_once (ustr ''2.5'' @ r) = Some (JFloat (ustr ''2.5''), r)"
      by (simp add: ustr_def scan_once.simps [of "50 # 46 # 53 # r"])
  qed
  then show ?thesis by (simp add: float_ok_def)
qed

text \<open>
  Claim C2, as the code has it.  Whenever the kind is JSON, by override or by detection,
  and \<^verbatim>\<open>json.loads\<close> reads the value \<open>t\<close> from the input, the result is of kind JSON and
  its string is \<^verbatim>\<open>json.dumps\<close> of the same tree with every string leaf replaced
  (\<open>map_strings\<close>: keys, key order, array order and every other leaf stay).  That
  string is valid JSON: \<^verbatim>\<open>json.loads\<close> reads it back as the tree that was printed.  A leaf is
  replaced by what \<^verbatim>\<open>sanitize_value\<close> returns for it with the kind that \<^verbatim>\<open>detect_type\<close>
  gives it, so a leaf that looks like JSON is sanitized as JSON in turn, and this call
  never raises.  In particular the object with the key \<^verbatim>\<open>email\<close> and the value
  \<^verbatim>\<open>user@example.com\<close> yields kind JSON and a text that parses as JSON to an object with
  the same key and that does not contain the address.
\<close>

theorem json_sanitization_tree:
  \<open>((case kind of Some k \<Rightarrow> k | None \<Rightarrow> detect_type v) = JSON \<longrightarrow> json_loads v = Some t \<longrightarrow>
      sanitize_value fr v kind = Inr (JSON, json_dumps fr (map_strings (sanitized fr) t)) \<and>
      (float_ok fr \<longrightarrow>
         json_loads (json_dumps fr (map_strings (sanitized fr) t)) =
           Some (map_floats fr (map_strings (sanitized fr) t)))) \<and>
   (\<exists>k. sanitize_value fr leaf (Some (detect_type leaf)) = Inr (k, sanitized fr leaf)) \<and>
   sanitize_value fr (ustr ''{"email":"user@example.com"}'') None =
      Inr (JSON, ustr ''{"email": "u**r@e*****e.c*m"}'') \<and>
   json_loads (ustr ''{"email": "u**r@e*****e.c*m"}'') =
      Some (JObj [(ustr ''email'', JStr (ustr ''u**r@e*****e.c*m''))]) \<and>
   \<not> contains (ustr ''user@example.com'') (ustr ''{"email": "u**r@e*****e.c*m"}'')\<close>
proof (intro conjI impI)
  assume "(case kind of Some k \<Rightarrow> k | None \<Rightarrow> detect_type v) = JSON" "json_loads v = Some t"
  then show "sanitize_value fr v kind = Inr (JSON, json_dumps fr (map_strings (sanitized fr) t))"
    by (rule sanitize_value_json)
next
  assume "json_loads v = Some t" and f: "float_ok fr"
  then have "distinct_keys (map_strings (sanitized fr) t)"
    by (intro map_strings_distinct_keys json_loads_distinct_keys)
  with f show "json_loads (json_dumps fr (map_strings (sanitized fr) t)) =
           Some (map_floats fr (map_strings (sanitized fr) t))"
    by (rule json_loads_dumps)
next
  show "\<exists>k. sanitize_value fr leaf (Some (detect_type leaf)) = Inr (k, sanitized fr leaf)"
    by (rule sanitized_result_detected)
next
  have d: \<open>detect_type (ustr ''{"email":"user@example.com"}'') = JSON\<close>
    by (simp add: ustr_def eval_detect eval_json)
  have l: \<open>json_loads (ustr ''{"email":"user@example.com"}'') =
      Some (JObj [(ustr ''email'', JStr (ustr ''user@example.com''))])\<close>
    by (simp add: ustr_def eval_json)
  have e: "sanitized fr (ustr ''user@example.com'') = ustr ''u**r@e*****e.c*m''"
    by (simp add: sanitized_def ex_email_leaf)
  show \<open>sanitize_value fr (ustr ''{"email":"user@example.com"}'') None =
      Inr (JSON, ustr ''{"email": "u**r@e*****e.c*m"}'')\<close>
    using sanitize_value_json [where kind = None, OF _ l, of fr] d e
    by (simp add: ustr_def encode_str_def encode_chr_def)
next
  show \<open>json_loads (ustr ''{"email": "u**r@e*****e.c*m"}'') =
      Some (JObj [(ustr ''email'', JStr (ustr ''u**r@e*****e.c*m''))])\<close>
    by (simp add: ustr_def eval_json)
next
  show \<open>\<not> contains (ustr ''user@example.com'') (ustr ''{"email": "u**r@e*****e.c*m"}'')\<close>
    by (simp add: ustr_def)
qed

theorem json_sanitization_tree_witness:
  \<open>detect_type (ustr ''["a<b", 2.5, {"k": null}]'') = JSON \<and>
   json_loads (ustr ''["a<b", 2.5, {"k": null}]'') =
     Some (JArr [JStr (ustr ''a<b''), JFloat (ustr ''2.5''), JObj [(ustr ''k'', JNull)]]) \<and>
   float_ok (\<lambda>l. ustr ''2.5'') \<and>
   sanitize_value (\<lambda>l. ustr ''2.5'') (ustr ''["a<b", 2.5, {"k": null}]'') None =
     Inr (JSON, ustr ''["a&lt;b", 2.5, {"k": null}]'') \<and>
   json_loads (ustr ''["a&lt;b", 2.5, {"k": null}]'') =
     Some (JArr [JStr (ustr ''a&lt;b''), JFloat (ustr ''2.5''), JObj [(ustr ''k'', JNull)]])\<close>
proof -
  let ?fr = "\<lambda>l::ustring. ustr ''2.5''"
  have d: \<open>(case None of Some k \<Rightarrow> k | None \<Rightarrow> detect_type (ustr ''["a<b", 2.5, {"k": null}]'')) = JSON\<close>
    by (simp add: ustr_def eval_detect eval_json)
  have l: \<open>json_loads (ustr ''["a<b", 2.5, {"k": null}]'') =
     Some (JArr [JStr (ustr ''a<b''), JFloat (ustr ''2.5''), JObj [(ustr ''k'', JNull)]])\<close>
    by (simp add: ustr_def eval_json)
  have "sanitize_value ?fr (ustr ''a<b'') None = Inr (Text, ustr ''a&lt;b'')"
    by (simp add: ustr_def eval_sanitize eval_detect eval_json)
  then have e: "sanitized ?fr (ustr ''a<b'') = ustr ''a&lt;b''" by (simp add: sanitized_def)
  have o: \<open>json_dumps ?fr (map_strings (sanitized ?fr)
       (JArr [JStr (ustr ''a<b''), JFloat (ustr ''2.5''), JObj [(ustr ''k'', JNull)]])) =
       ustr ''["a&lt;b", 2.5, {"k": null}]''\<close>
    by (simp add: e) (simp add: ustr_def encode_str_def encode_chr_def)
  have m: \<open>map_floats ?fr (map_strings (sanitized ?fr)
       (JArr [JStr (ustr ''a<b''), JFloat (ustr ''2.5''), JObj [(ustr ''k'', JNull)]])) =
       JArr [JStr (ustr ''a&lt;b''), JFloat (ustr ''2.5''), JObj [(ustr ''k'', JNull)]]\<close>
    by (simp add: e)
  note t = json_sanitization_tree [where kind = None and fr = ?fr and
        v = \<open>ustr ''["a<b", 2.5, {"k": null}]''\<close> and
        t = \<open>JArr [JStr (ustr ''a<b''), JFloat (ustr ''2.5''), JObj [(ustr ''k'', JNull)]]\<close>]
  from t d l have 1: \<open>sanitize_value ?fr (ustr ''["a<b", 2.5, {"k": null}]'') None =
     Inr (JSON, json_dumps ?fr (map_strings (sanitized ?fr)
       (JArr [JStr (ustr ''a<b''), JFloat (ustr ''2.5''), JObj [(ustr ''k'', JNull)]])))\<close>
    by blast
  from t d l float_ok_const have 2: \<open>json_loads (json_dumps ?fr (map_strings (sanitized ?fr)
       (JArr [JStr (ustr ''a<b''), JFloat (ustr ''2.5''), JObj [(ustr ''k'', JNull)]]))) =
     Some (map_floats ?fr (map_strings (sanitized ?fr)
       (JArr [JStr (ustr ''a<b''), JFloat (ustr ''2.5''), JObj [(ustr ''k'', JNull)]])))\<close>
    by blast
  from d have d': \<open>detect_type (ustr ''["a<b", 2.5, {"k": null}]'') = JSON\<close> by simp
  from 1 2 show ?thesis
    unfolding o m using d' l float_ok_const by blast
qed

end
